theory Spec2Isabelle
  imports Complex_Main "HOL-Library.Log_Nat" "HOL-Library.Monad_Syntax"
begin

section \<open>Single precision\<close>

text \<open>
  The notebook \<^verbatim>\<open>Poisson-PDE.ipynb\<close> works on NumPy arrays of \<^verbatim>\<open>float32\<close>: the three coordinate
  arrays and the right-hand side of the builder, and the vectors handed to the kernels. An
  array is a list of real numbers here. A value that is stored into a \<^verbatim>\<open>float32\<close> array, or
  cast with \<^verbatim>\<open>astype('float32')\<close>, is rounded to the nearest number with a significand of 24
  bits, a tie going to the even significand; the numbers are multiples of \<open>1 / 2\<^sup>1\<^sup>4\<^sup>9\<close>, and
  the smallest of them (the subnormal numbers) have fewer bits. \<open>float32 x\<close> is that number:
  with \<open>s\<close> the number of bits by which the integer part of \<open>\<bar>x\<bar> 2\<^sup>1\<^sup>4\<^sup>9\<close> exceeds 24 bits,
  \<open>x\<close> is rounded to a multiple of \<open>2\<^sup>s / 2\<^sup>1\<^sup>4\<^sup>9\<close>.

  A list of reals has no infinity and no NaN. Where the source would produce one the model
  does not follow it: \<open>float32 x\<close> is the rounded number as if the exponent had no upper
  bound, which is what the cast gives as long as \<open>float32_finite x\<close>, that is
  \<open>\<bar>x\<bar> < (2 - 1 / 2\<^sup>2\<^sup>4) 2\<^sup>1\<^sup>2\<^sup>7\<close>. The integers that the builder stores are far below that bound,
  and below \<open>2\<^sup>5\<^sup>3\<close> (so that their way through double precision changes nothing), for every
  grid that fits into memory. The arithmetic inside the kernels and inside the
  matrix-vector product, up to the store of its result, is exact here; the source rounds
  after every operation.
\<close>

definition round_half_even :: "real \<Rightarrow> int" where
  "round_half_even q =
     (let n = \<lfloor>q\<rfloor>; r = q - of_int n
      in if r < 1 / 2 then n else if 1 / 2 < r then n + 1 else if even n then n else n + 1)"

definition float32 :: "real \<Rightarrow> real" where
  "float32 x =
     (let s = nat (bitlen \<lfloor>\<bar>x\<bar> * 2 ^ 149\<rfloor> - 24)
      in of_int (round_half_even (x * 2 ^ 149 / 2 ^ s)) * 2 ^ s / 2 ^ 149)"

definition float32_finite :: "real \<Rightarrow> bool" where
  "float32_finite x = (\<bar>x\<bar> < (2 - 1 / 2 ^ 24) * 2 ^ 127)"

text \<open>\<^verbatim>\<open>astype('float32')\<close> on an array.\<close>

definition astype_float32 :: "real list \<Rightarrow> real list" where
  "astype_float32 x = map float32 x"

section \<open>Arrays, uninitialised memory and loops\<close>

text \<open>
  \<^verbatim>\<open>np.empty(n)\<close> returns \<open>n\<close> cells of whatever the allocator left behind. The contents are
  a parameter: \<open>mem name k\<close> is what cell \<open>k\<close> of the array bound to \<open>name\<close> holds when it is
  allocated. (\<^verbatim>\<open>np.empty\<close> raises on a negative size; the sizes of the source,
  \<open>5 N\<^sup>2 - 16 N + 16\<close>, \<open>N * N\<close> and \<open>(N - 2)\<^sup>2\<close>, are never negative. A cell left behind by
  the allocator may also hold an infinity or a NaN, which the model does not have.)
\<close>

type_synonym uninit = "string \<Rightarrow> nat \<Rightarrow> real"

definition np_empty :: "uninit \<Rightarrow> string \<Rightarrow> int \<Rightarrow> real list" where
  "np_empty mem name n = map (mem name) [0..<nat n]"

text \<open>
  \<^verbatim>\<open>xs[k] = v\<close>: Python counts a negative index from the end and raises IndexError outside
  the array; \<open>None\<close> is that error.
\<close>

definition setitem :: "'a list \<Rightarrow> int \<Rightarrow> 'a \<Rightarrow> 'a list option" where
  "setitem xs k v =
     (let n = int (length xs); k' = (if k < 0 then k + n else k)
      in if 0 \<le> k' \<and> k' < n then Some (xs[nat k' := v]) else None)"

text \<open>
  \<^verbatim>\<open>xs[a:b] = v\<close> with a scalar \<open>v\<close>: the bounds are clipped to the array, nothing is raised.
\<close>

definition slice_bound :: "int \<Rightarrow> int \<Rightarrow> int" where
  "slice_bound n k = (if k < 0 then max 0 (k + n) else min k n)"

definition setslice :: "'a list \<Rightarrow> int \<Rightarrow> int \<Rightarrow> 'a \<Rightarrow> 'a list" where
  "setslice xs a b v =
     (let n = int (length xs); lo = slice_bound n a; hi = slice_bound n b
      in map (\<lambda>m. if lo \<le> int m \<and> int m < hi then v else xs ! m) [0..<length xs])"

text \<open>\<^verbatim>\<open>range(n)\<close>: the integers \<open>0, \<dots>, n - 1\<close>, none when \<open>n \<le> 0\<close>.\<close>

definition py_range :: "int \<Rightarrow> int list" where
  "py_range n = map int [0..<nat n]"

text \<open>A \<^verbatim>\<open>for\<close> loop whose body may raise: the loop stops at the first error.\<close>

fun for_each :: "'a list \<Rightarrow> ('a \<Rightarrow> 's \<Rightarrow> 's option) \<Rightarrow> 's \<Rightarrow> 's option" where
  "for_each [] body s = Some s"
| "for_each (x # xs) body s =
     (case body x s of None \<Rightarrow> None | Some s' \<Rightarrow> for_each xs body s')"

section \<open>The sparse operator: \<^verbatim>\<open>discretise_poisson\<close>\<close>

text \<open>
  A matrix in coordinate format: the coefficients, their row and column indices, and the
  shape. The conversion \<^verbatim>\<open>.tocsr()\<close> changes the storage, not the matrix: it adds up the
  coefficients stored at one position.
\<close>

datatype coo_matrix =
  COO (coo_data: "real list") (coo_row: "int list") (coo_col: "int list") (coo_shape: "int \<times> int")

text \<open>
  \<^verbatim>\<open>coo_matrix((data, (row_ind, col_ind)), shape)\<close> as the builder calls it, on three arrays
  of \<^verbatim>\<open>float32\<close>. The constructor of SciPy converts the two index arrays to integers, which
  drops the fractional part of each index (\<open>index_cast\<close>), and then checks them: it raises
  ValueError when an index is negative or not below the dimension of the shape, and when
  the three arrays differ in length. \<open>None\<close> is that error.
\<close>

definition index_cast :: "real \<Rightarrow> int" where
  "index_cast x = (if 0 \<le> x then \<lfloor>x\<rfloor> else \<lceil>x\<rceil>)"

definition coo_matrix_init ::
  "real list \<Rightarrow> real list \<Rightarrow> real list \<Rightarrow> int \<times> int \<Rightarrow> coo_matrix option" where
  "coo_matrix_init data row_ind col_ind shape =
     (let row = map index_cast row_ind; col = map index_cast col_ind
      in if length row = length data \<and> length col = length data
            \<and> list_all (\<lambda>r. 0 \<le> r \<and> r < fst shape) row
            \<and> list_all (\<lambda>c. 0 \<le> c \<and> c < snd shape) col
         then Some (COO data row col shape) else None)"

text \<open>The local variables of the builder: \<open>(row_ind, col_ind, data, f, count)\<close>.\<close>

type_synonym locals = "real list \<times> real list \<times> real list \<times> real list \<times> int"

text \<open>
  The body of the two nested loops, at row \<open>j\<close> and column \<open>i\<close>. The four arrays are
  \<^verbatim>\<open>float32\<close> arrays: every store rounds what it stores.
\<close>

definition loop_body :: "int \<Rightarrow> int \<Rightarrow> int \<Rightarrow> locals \<Rightarrow> locals option" where
  "loop_body N j i = (\<lambda>(row_ind, col_ind, data, f, count).
     if i = 0 \<or> i = N - 1 \<or> j = 0 \<or> j = N - 1 then do {
       row_ind \<leftarrow> setitem row_ind count (float32 (of_int (j * N + i)));
       col_ind \<leftarrow> setitem col_ind count (float32 (of_int (j * N + i)));
       data \<leftarrow> setitem data count (float32 1);
       f \<leftarrow> setitem f (j * N + i) (float32 0);
       Some (row_ind, col_ind, data, f, count + 1)
     } else do {
       let row_ind = setslice row_ind count (count + 5) (float32 (of_int (j * N + i)));
       col_ind \<leftarrow> setitem col_ind count (float32 (of_int (j * N + i)));
       col_ind \<leftarrow> setitem col_ind (count + 1) (float32 (of_int (j * N + i + 1)));
       col_ind \<leftarrow> setitem col_ind (count + 2) (float32 (of_int (j * N + i - 1)));
       col_ind \<leftarrow> setitem col_ind (count + 3) (float32 (of_int ((j + 1) * N + i)));
       col_ind \<leftarrow> setitem col_ind (count + 4) (float32 (of_int ((j - 1) * N + i)));
       data \<leftarrow> setitem data count (float32 (of_int (4 * (N - 1)\<^sup>2)));
       let data = setslice data (count + 1) (count + 5) (float32 (of_int (- ((N - 1)\<^sup>2))));
       f \<leftarrow> setitem f (j * N + i) (float32 1);
       Some (row_ind, col_ind, data, f, count + 5)
     })"

text \<open>
  The builder: the allocations, the two loops, and the call of the constructor, whose
  error, if it raises, is the builder's.
\<close>

definition discretise_poisson :: "uninit \<Rightarrow> int \<Rightarrow> (coo_matrix \<times> real list) option" where
  "discretise_poisson mem N =
     (let nelements = 5 * N\<^sup>2 - 16 * N + 16;
          row_ind = np_empty mem ''row_ind'' nelements;
          col_ind = np_empty mem ''col_ind'' nelements;
          data = np_empty mem ''data'' nelements;
          f = np_empty mem ''f'' (N * N);
          count = 0
      in do {
        (row_ind, col_ind, data, f, count) \<leftarrow>
          for_each (py_range N) (\<lambda>j. for_each (py_range N) (\<lambda>i. loop_body N j i))
            (row_ind, col_ind, data, f, count);
        A \<leftarrow> coo_matrix_init data row_ind col_ind (N\<^sup>2, N\<^sup>2);
        Some (A, f)
      })"


section \<open>The builder, as a function of the grid size\<close>

text \<open>
  What the loop body emits at row \<open>j\<close> and column \<open>i\<close>, before any rounding, as triplets
  (row, column, coefficient), in the order in which the body writes them; and what the
  three \<^verbatim>\<open>float32\<close> arrays hold for a triplet.
\<close>

definition cell_entries :: "int \<Rightarrow> int \<Rightarrow> int \<Rightarrow> (int \<times> int \<times> real) list" where
  "cell_entries N j i =
     (let k = j * N + i in
      if i = 0 \<or> i = N - 1 \<or> j = 0 \<or> j = N - 1 then [(k, k, 1)]
      else [(k, k, of_int (4 * (N - 1)\<^sup>2)),
            (k, j * N + i + 1, of_int (- ((N - 1)\<^sup>2))),
            (k, j * N + i - 1, of_int (- ((N - 1)\<^sup>2))),
            (k, (j + 1) * N + i, of_int (- ((N - 1)\<^sup>2))),
            (k, (j - 1) * N + i, of_int (- ((N - 1)\<^sup>2)))])"

definition stored :: "int \<times> int \<times> real \<Rightarrow> real \<times> real \<times> real" where
  "stored = (\<lambda>(r, c, v). (float32 (of_int r), float32 (of_int c), float32 v))"

text \<open>
  The triplets of the first \<open>m\<close> grid points in the order of the loops (row by row), and
  the right-hand side at the flat index \<open>q\<close>.
\<close>

definition entries_upto :: "int \<Rightarrow> nat \<Rightarrow> (int \<times> int \<times> real) list" where
  "entries_upto N m = concat (map (\<lambda>q. cell_entries N (int q div N) (int q mod N)) [0..<m])"

definition rhs_value :: "int \<Rightarrow> nat \<Rightarrow> real" where
  "rhs_value N q =
     (let i = int q mod N; j = int q div N
      in if i = 0 \<or> i = N - 1 \<or> j = 0 \<or> j = N - 1 then 0 else 1)"

text \<open>The local variables after the first \<open>m\<close> passes through the loop body.\<close>

definition builder_state :: "uninit \<Rightarrow> int \<Rightarrow> nat \<Rightarrow> locals" where
  "builder_state mem N m =
     (let E = map stored (entries_upto N m); nelements = 5 * N\<^sup>2 - 16 * N + 16 in
      (map fst E @ drop (length E) (np_empty mem ''row_ind'' nelements),
       map (fst \<circ> snd) E @ drop (length E) (np_empty mem ''col_ind'' nelements),
       map (snd \<circ> snd) E @ drop (length E) (np_empty mem ''data'' nelements),
       map (rhs_value N) [0..<m] @ drop m (np_empty mem ''f'' (N * N)),
       int (length E)))"

definition zero_mem :: uninit where
  "zero_mem name k = 0"

section \<open>Reading the sparse matrix\<close>

text \<open>
  The stored triplets of a matrix in coordinate format; the coefficient at a position (the
  sum of the triplets stored there, as the conversion to CSR adds duplicates up); the number
  of positions that hold a nonzero coefficient; and the triplets of one row.
\<close>

definition triplets :: "coo_matrix \<Rightarrow> (int \<times> int \<times> real) list" where
  "triplets A = zip (coo_row A) (zip (coo_col A) (coo_data A))"

definition entry :: "coo_matrix \<Rightarrow> int \<Rightarrow> int \<Rightarrow> real" where
  "entry A r c = sum_list (map (snd \<circ> snd) (filter (\<lambda>t. fst t = r \<and> fst (snd t) = c) (triplets A)))"

definition nnz :: "coo_matrix \<Rightarrow> nat" where
  "nnz A = length (filter (\<lambda>p. entry A (fst p) (snd p) \<noteq> 0) (remdups (zip (coo_row A) (coo_col A))))"

definition row_of :: "coo_matrix \<Rightarrow> int \<Rightarrow> (int \<times> int \<times> real) list" where
  "row_of A k = filter (\<lambda>t. fst t = k) (triplets A)"

section \<open>Device memory and kernel launches\<close>

text \<open>
  A kernel reads and writes global arrays by index, and nothing on the device checks the
  index. A read or a write outside \<open>[0, length)\<close> is \<open>None\<close> here, so that a kernel that
  returns \<open>Some\<close> has made no such access.
\<close>

definition ld :: "real list \<Rightarrow> int \<Rightarrow> real option" where
  "ld a k = (if 0 \<le> k \<and> k < int (length a) then Some (a ! nat k) else None)"

definition st :: "real list \<Rightarrow> int \<Rightarrow> real \<Rightarrow> real list option" where
  "st a k v = (if 0 \<le> k \<and> k < int (length a) then Some (a[nat k := v]) else None)"

text \<open>
  \<^verbatim>\<open>kernel[griddim, blockdim](...)\<close> runs the kernel once for every thread of every block.
  A thread is the pair of its block index and its index in the block.
\<close>

definition grid_blocks :: "int \<times> int \<Rightarrow> (int \<times> int) list" where
  "grid_blocks griddim = [(bi, bj). bj \<leftarrow> py_range (snd griddim), bi \<leftarrow> py_range (fst griddim)]"

definition block_threads :: "int \<times> int \<Rightarrow> (int \<times> int) list" where
  "block_threads blockdim = [(ti, tj). tj \<leftarrow> py_range (snd blockdim), ti \<leftarrow> py_range (fst blockdim)]"

definition launch :: "int \<times> int \<Rightarrow> int \<times> int \<Rightarrow> ((int \<times> int) \<times> (int \<times> int)) list" where
  "launch griddim blockdim = [(b, t). b \<leftarrow> grid_blocks griddim, t \<leftarrow> block_threads blockdim]"

text \<open>\<^verbatim>\<open>cuda.grid(2)\<close>: the position of a thread in the whole grid.\<close>

definition cuda_grid :: "int \<times> int \<Rightarrow> (int \<times> int) \<times> (int \<times> int) \<Rightarrow> int \<times> int" where
  "cuda_grid blockdim = (\<lambda>((bi, bj), (ti, tj)). (bi * fst blockdim + ti, bj * snd blockdim + tj))"

section \<open>The kernel without shared memory: \<^verbatim>\<open>discretise_poisson_gpu\<close>\<close>

text \<open>
  One thread of the kernel, at the grid position \<open>(i, j)\<close>. The grid size \<open>N\<close> is a global
  variable of the notebook; it is a parameter here.
\<close>

definition discretise_poisson_gpu ::
  "int \<Rightarrow> real list \<Rightarrow> int \<times> int \<Rightarrow> real list \<Rightarrow> real list option" where
  "discretise_poisson_gpu N vec_in = (\<lambda>(i, j) vec_out.
     if i \<ge> N then Some vec_out
     else if j \<ge> N then Some vec_out
     else
       let k = j * N + i in
       if i = 0 \<or> i = N - 1 \<or> j = 0 \<or> j = N - 1 then do {
         v \<leftarrow> ld vec_in k;
         st vec_out k v
       } else do {
         up \<leftarrow> ld vec_in ((j + 1) * N + i);
         down \<leftarrow> ld vec_in ((j - 1) * N + i);
         left \<leftarrow> ld vec_in (j * N + i - 1);
         right \<leftarrow> ld vec_in (j * N + i + 1);
         center \<leftarrow> ld vec_in k;
         st vec_out k (of_int ((N - 1)\<^sup>2) * (4 * center - up - down - left - right))
       })"

text \<open>
  \<^verbatim>\<open>eval_gpu\<close>: the launch on \<open>(N + 31) // 32\<close> by \<open>(N + 31) // 32\<close> blocks of 32 by 32
  threads, into an uninitialised array \<^verbatim>\<open>res\<close>. The threads run here one after the other in
  the order of \<open>launch\<close>; each writes at most one cell of \<^verbatim>\<open>res\<close>, its own. The kernel is
  given \<^verbatim>\<open>x.astype('float32')\<close>; the cast \<^verbatim>\<open>res.astype('float64')\<close> of the result changes no
  value.
\<close>

definition eval_gpu :: "uninit \<Rightarrow> int \<Rightarrow> real list \<Rightarrow> real list option" where
  "eval_gpu mem N x =
     (let res = np_empty mem ''res'' (N * N);
          nblocks = (N + 31) div 32
      in for_each (launch (nblocks, nblocks) (32, 32))
           (\<lambda>t. discretise_poisson_gpu N (astype_float32 x) (cuda_grid (32, 32) t)) res)"

section \<open>The sparse matrix applied to a vector\<close>

text \<open>
  \<^verbatim>\<open>A @ x\<close>, for a matrix whose indices lie inside its shape, as the constructor makes
  sure. The product refuses a vector whose length is not the number of columns; \<open>None\<close> is
  that error.
\<close>

definition coo_valid :: "coo_matrix \<Rightarrow> bool" where
  "coo_valid A =
     list_all (\<lambda>t. 0 \<le> fst t \<and> fst t < fst (coo_shape A)
                  \<and> 0 \<le> fst (snd t) \<and> fst (snd t) < snd (coo_shape A))
       (triplets A)"

definition matvec :: "coo_matrix \<Rightarrow> real list \<Rightarrow> real list option" where
  "matvec A x =
     (if coo_valid A \<and> int (length x) = snd (coo_shape A)
      then Some (map (\<lambda>k. sum_list (map (\<lambda>t. snd (snd t) * x ! nat (fst (snd t))) (row_of A (int k))))
                   [0..<nat (fst (coo_shape A))])
      else None)"

text \<open>
  The five-point stencil at the flat index \<open>k\<close> of the full grid: the identity on the
  boundary, \<open>(N - 1)\<^sup>2 (4 u\<^sub>k - u\<^sub>k\<^sub>+\<^sub>N - u\<^sub>k\<^sub>-\<^sub>N - u\<^sub>k\<^sub>-\<^sub>1 - u\<^sub>k\<^sub>+\<^sub>1)\<close> in the interior.
\<close>

definition stencil_value :: "int \<Rightarrow> real list \<Rightarrow> int \<Rightarrow> real" where
  "stencil_value N u k =
     (let i = k mod N; j = k div N in
      if i = 0 \<or> i = N - 1 \<or> j = 0 \<or> j = N - 1 then u ! nat k
      else of_int ((N - 1)\<^sup>2) *
             (4 * u ! nat k - u ! nat (k + N) - u ! nat (k - N) - u ! nat (k - 1) - u ! nat (k + 1)))"

section \<open>The kernel with shared memory: \<^verbatim>\<open>discretise_poisson_gpu_2\<close>\<close>

text \<open>The size of a thread block, and of its buffer with the halo.\<close>

definition SX :: int where "SX = 32"
definition SY :: int where "SY = 32"
definition haloSX :: int where "haloSX = SX + 2"
definition haloSY :: int where "haloSY = SY + 2"

text \<open>
  The shared array \<^verbatim>\<open>local_u\<close> of a block is a function from its cells to their contents.
  \<^verbatim>\<open>cuda.shared.array\<close> does not initialise it: what each block finds there is a parameter
  of the kernel. \<open>cell a b\<close> is the position \<^verbatim>\<open>[a, b]\<close> of the array, where a negative index
  counts from the end of its axis.
\<close>

type_synonym shared = "int \<times> int \<Rightarrow> real"

definition cell :: "int \<Rightarrow> int \<Rightarrow> int \<times> int" where
  "cell a b = (if a < 0 then a + haloSX else a, if b < 0 then b + haloSY else b)"

text \<open>
  What a write to \<^verbatim>\<open>local_u\<close> stores: the value of \<^verbatim>\<open>u_tilda\<close> at an index, or
  \<^verbatim>\<open>numba.float32(0)\<close>.
\<close>

datatype source = From_global int | Float32_zero

text \<open>
  The loading phase of the thread \<open>(i, j)\<close> of a block, at the grid position \<open>(pi, pj)\<close>: its
  writes to \<^verbatim>\<open>local_u\<close>, in program order. A thread outside the interior grid returns before
  it writes anything.
\<close>

definition loading :: "int \<Rightarrow> int \<times> int \<Rightarrow> int \<times> int \<Rightarrow> ((int \<times> int) \<times> source) list" where
  "loading N = (\<lambda>(i, j) (pi, pj).
     if pi \<ge> N - 2 then []
     else if pj \<ge> N - 2 then []
     else
       let pk = pj * (N - 2) + pi in
       [(cell (i + 1) (j + 1), From_global pk)]
       @ (if i = 0 \<and> pi \<noteq> 0 then [(cell i (j + 1), From_global (pk - 1))] else [])
       @ (if j = 0 \<and> pj \<noteq> 0 then [(cell (i + 1) j, From_global (pk - (N - 2)))] else [])
       @ (if i = SX - 1 \<and> pi \<noteq> (N - 2) - 1
          then [(cell (- 1) (j + 1), From_global (pk + 1))] else [])
       @ (if j = SY - 1 \<and> pj \<noteq> (N - 2) - 1
          then [(cell (i + 1) (- 1), From_global (pk + (N - 2)))] else [])
       @ (if pi = 0 then [(cell i (j + 1), Float32_zero)] else [])
       @ (if pj = 0 then [(cell (i + 1) j, Float32_zero)] else [])
       @ (if pi = (N - 2) - 1 then [(cell (i + 2) (j + 1), Float32_zero)] else [])
       @ (if pj = (N - 2) - 1 then [(cell (i + 1) (j + 2), Float32_zero)] else []))"

text \<open>One write to \<^verbatim>\<open>local_u\<close>, and a sequence of them.\<close>

definition shared_write :: "real list \<Rightarrow> (int \<times> int) \<times> source \<Rightarrow> shared \<Rightarrow> shared option" where
  "shared_write u_tilda = (\<lambda>(c, s) local_u.
     case s of
       From_global k \<Rightarrow> do { v \<leftarrow> ld u_tilda k; Some (local_u(c := v)) }
     | Float32_zero \<Rightarrow> Some (local_u(c := 0)))"

definition load_phase ::
  "real list \<Rightarrow> ((int \<times> int) \<times> source) list \<Rightarrow> shared \<Rightarrow> shared option" where
  "load_phase u_tilda writes local_u = for_each writes (shared_write u_tilda) local_u"

text \<open>The writes of all threads of the block \<open>b\<close>, thread after thread.\<close>

definition block_loading ::
  "int \<Rightarrow> int \<times> int \<Rightarrow> int \<times> int \<Rightarrow> ((int \<times> int) \<times> source) list" where
  "block_loading N blockdim b =
     concat (map (\<lambda>t. loading N t (cuda_grid blockdim (b, t))) (block_threads blockdim))"

text \<open>
  After \<^verbatim>\<open>cuda.syncthreads()\<close>: the thread \<open>(i, j)\<close> reads five cells of \<^verbatim>\<open>local_u\<close> and writes
  \<^verbatim>\<open>f[pk]\<close>.
\<close>

definition compute_phase ::
  "int \<Rightarrow> real \<Rightarrow> shared \<Rightarrow> int \<times> int \<Rightarrow> int \<times> int \<Rightarrow> real list \<Rightarrow> real list option" where
  "compute_phase N omega local_u = (\<lambda>(i, j) (pi, pj) f.
     if pi \<ge> N - 2 then Some f
     else if pj \<ge> N - 2 then Some f
     else
       let pk = pj * (N - 2) + pi;
           up = local_u (cell (i + 2) (j + 1));
           down = local_u (cell i (j + 1));
           left = local_u (cell (i + 1) j);
           right = local_u (cell (i + 1) (j + 2));
           center = local_u (cell (i + 1) (j + 1))
       in st f pk (of_int ((N - 1)\<^sup>2) * (4 * center - up - down - left - right)
                     + omega\<^sup>2 * center))"

text \<open>
  The kernel on a grid of blocks. In each block every thread finishes its loading phase
  before any thread of the block computes (the barrier); blocks share nothing but \<open>f\<close>.
\<close>

definition discretise_poisson_gpu_2 ::
  "(int \<times> int \<Rightarrow> shared) \<Rightarrow> int \<times> int \<Rightarrow> int \<times> int \<Rightarrow>
   real list \<Rightarrow> real list \<Rightarrow> real \<Rightarrow> int \<Rightarrow> real list option" where
  "discretise_poisson_gpu_2 uninit_shared griddim blockdim u_tilda f omega N =
     for_each (grid_blocks griddim)
       (\<lambda>b f. do {
          local_u \<leftarrow> load_phase u_tilda (block_loading N blockdim b) (uninit_shared b);
          for_each (block_threads blockdim)
            (\<lambda>t. compute_phase N omega local_u t (cuda_grid blockdim (b, t))) f
        }) f"

text \<open>
  \<^verbatim>\<open>eval_gpu_2\<close>: the launch on \<open>((N - 2) + 31) // 32\<close> squared blocks of 32 by 32 threads,
  into an uninitialised array \<^verbatim>\<open>f\<close>. \<open>N\<close> and \<open>omega\<close> are global variables of the notebook
  and parameters here. The kernel is given \<^verbatim>\<open>u_tilda.astype('float32')\<close>; the cast
  \<^verbatim>\<open>f.astype('float64')\<close> of the result changes no value.
\<close>

definition eval_gpu_2 ::
  "(int \<times> int \<Rightarrow> shared) \<Rightarrow> uninit \<Rightarrow> int \<Rightarrow> real \<Rightarrow> real list \<Rightarrow> real list option" where
  "eval_gpu_2 uninit_shared mem N omega u_tilda =
     (let f = np_empty mem ''f'' ((N - 2)\<^sup>2);
          nblocks = ((N - 2) + 31) div 32
      in discretise_poisson_gpu_2 uninit_shared (nblocks, nblocks) (32, 32)
           (astype_float32 u_tilda) f omega N)"

text \<open>
  The stencil on the interior-only vector, at the flat interior index \<open>k\<close>: a neighbour
  outside the interior grid counts as zero.
\<close>

definition tiled_value :: "int \<Rightarrow> real \<Rightarrow> real list \<Rightarrow> int \<Rightarrow> real" where
  "tiled_value N omega u k =
     (let p = k mod (N - 2); q = k div (N - 2);
          up = (if p = (N - 2) - 1 then 0 else u ! nat (k + 1));
          down = (if p = 0 then 0 else u ! nat (k - 1));
          left = (if q = 0 then 0 else u ! nat (k - (N - 2)));
          right = (if q = (N - 2) - 1 then 0 else u ! nat (k + (N - 2)));
          center = u ! nat k
      in of_int ((N - 1)\<^sup>2) * (4 * center - up - down - left - right) + omega\<^sup>2 * center)"




text \<open>The value a write stores.\<close>

definition source_value :: "real list \<Rightarrow> source \<Rightarrow> real" where
  "source_value u_tilda s = (case s of From_global k \<Rightarrow> u_tilda ! nat k | Float32_zero \<Rightarrow> 0)"

text \<open>
  Two threads \<open>(i, j)\<close> and \<open>(i', j')\<close> of one block, at the grid positions \<open>(p, q)\<close> and
  \<open>(p', q')\<close>: the positions differ as the thread indices do.
\<close>

definition same_block :: "int \<times> int \<Rightarrow> int \<times> int \<Rightarrow> int \<times> int \<Rightarrow> int \<times> int \<Rightarrow> bool" where
  "same_block = (\<lambda>(i, j) (p, q) (i', j') (p', q').
     0 \<le> i \<and> i < 32 \<and> 0 \<le> j \<and> j < 32 \<and> 0 \<le> i' \<and> i' < 32 \<and> 0 \<le> j' \<and> j' < 32
     \<and> i \<le> p \<and> j \<le> q \<and> i' \<le> p' \<and> j' \<le> q' \<and> p' - p = i' - i \<and> q' - q = j' - j)"

text \<open>The index of \<open>f\<close> that a thread of the launch writes, if it writes.\<close>

definition written_index :: "int \<Rightarrow> (int \<times> int) \<times> (int \<times> int) \<Rightarrow> nat set" where
  "written_index N bt =
     (case cuda_grid (32, 32) bt of (p, q) \<Rightarrow>
        if p < N - 2 \<and> q < N - 2 then {nat (q * (N - 2) + p)} else {})"

text \<open>
  The indices of \<^verbatim>\<open>vec_in\<close> that a thread of the kernel without shared memory reads at an
  interior point \<open>(i, j)\<close> (up, down, left, right, center), the cells of \<^verbatim>\<open>local_u\<close> that a
  thread \<open>(i, j)\<close> of the kernel with shared memory reads after the barrier, and the four
  corners of \<^verbatim>\<open>local_u\<close>.
\<close>

definition stencil_indices :: "int \<Rightarrow> int \<Rightarrow> int \<Rightarrow> int list" where
  "stencil_indices N i j =
     [(j + 1) * N + i, (j - 1) * N + i, j * N + i - 1, j * N + i + 1, j * N + i]"

definition stencil_cells :: "int \<times> int \<Rightarrow> (int \<times> int) list" where
  "stencil_cells = (\<lambda>(i, j).
     [cell (i + 2) (j + 1), cell i (j + 1), cell (i + 1) j, cell (i + 1) (j + 2),
      cell (i + 1) (j + 1)])"

definition halo_corners :: "(int \<times> int) list" where
  "halo_corners = [cell 0 0, cell 0 (- 1), cell (- 1) 0, cell (- 1) (- 1)]"

section \<open>Loops and array updates\<close>

lemma for_each_append:
  "for_each (xs @ ys) body s =
     (case for_each xs body s of None \<Rightarrow> None | Some s' \<Rightarrow> for_each ys body s')"
  by (induction xs arbitrary: s) (auto split: option.splits)

lemma setitem_nat:
  "c < length xs \<Longrightarrow> setitem xs (int c) v = Some (xs[c := v])"
  by (simp add: setitem_def Let_def)

lemma setitem_nat_add:
  "c + d < length xs \<Longrightarrow> setitem xs (int c + int d) v = Some (xs[c + d := v])"
  using setitem_nat[of "c + d" xs v] by simp

lemma setslice_nat:
  "c + d \<le> length xs \<Longrightarrow>
   setslice xs (int c) (int c + int d) v = take c xs @ replicate d v @ drop (c + d) xs"
  by (rule nth_equalityI)
     (auto simp: setslice_def slice_bound_def Let_def nth_append min_def)

lemma list_update5:
  "c + 5 \<le> length xs \<Longrightarrow>
   xs[c := a0, c + 1 := a1, c + 2 := a2, c + 3 := a3, c + 4 := a4]
     = take c xs @ [a0, a1, a2, a3, a4] @ drop (c + 5) xs"
  by (rule nth_equalityI)
     (auto simp: nth_append nth_list_update nth_Cons')

lemma for_each_steps:
  "(\<And>q. q < length xs \<Longrightarrow> body (xs ! q) (S (base + q)) = Some (S (base + Suc q)))
   \<Longrightarrow> for_each xs body (S base) = Some (S (base + length xs))"
proof (induction xs arbitrary: base)
  case Nil
  then show ?case by simp
next
  case (Cons x xs)
  have first: "body x (S base) = Some (S (Suc base))"
    using Cons.prems[of 0] by simp
  have "for_each xs body (S (Suc base)) = Some (S (Suc base + length xs))"
  proof (rule Cons.IH)
    fix q assume "q < length xs"
    then show "body (xs ! q) (S (Suc base + q)) = Some (S (Suc base + Suc q))"
      using Cons.prems[of "Suc q"] by simp
  qed
  then show ?case by (simp add: first)
qed

lemma length_np_empty: "length (np_empty mem name n) = nat n"
  by (simp add: np_empty_def)

section \<open>Numbers that single precision holds exactly\<close>

lemma round_half_even_of_int [simp]: "round_half_even (of_int n) = n"
  by (simp add: round_half_even_def)

lemma float32_exact:
  assumes "\<bar>m\<bar> < 2 ^ 24"
  shows "float32 (of_int m * 2 ^ p / 2 ^ 149) = of_int m * 2 ^ p / 2 ^ 149"
proof -
  let ?x = "of_int m * 2 ^ p / 2 ^ 149 :: real"
  let ?s = "nat (bitlen \<lfloor>\<bar>?x\<bar> * 2 ^ 149\<rfloor> - 24)"
  have fl: "\<lfloor>\<bar>?x\<bar> * 2 ^ 149\<rfloor> = \<bar>m\<bar> * 2 ^ p"
  proof -
    have "\<bar>?x\<bar> * 2 ^ 149 = of_int (\<bar>m\<bar> * 2 ^ p)"
      by (simp add: abs_mult)
    then show ?thesis by (simp only: floor_of_int)
  qed
  have "\<bar>m\<bar> * 2 ^ p < 2 ^ 24 * 2 ^ p"
    using assms by simp
  then have "\<bar>m\<bar> * 2 ^ p < 2 ^ nat (24 + int p)"
    by (simp add: nat_add_distrib power_add)
  then have "bitlen (\<bar>m\<bar> * 2 ^ p) \<le> 24 + int p"
    unfolding bitlen_le_iff_power by simp
  then have sp: "?s \<le> p" unfolding fl by simp
  then obtain d where d: "p = ?s + d" using le_Suc_ex by blast
  have q: "?x * 2 ^ 149 / 2 ^ ?s = of_int (m * 2 ^ d)"
  proof -
    have "?x * 2 ^ 149 / 2 ^ ?s = of_int m * 2 ^ p / 2 ^ ?s" by simp
    also have "\<dots> = of_int m * (2 ^ ?s * 2 ^ d) / 2 ^ ?s"
      by (subst d) (simp only: power_add)
    also have "\<dots> = of_int (m * 2 ^ d)" by simp
    finally show ?thesis .
  qed
  have "float32 ?x = of_int (m * 2 ^ d) * 2 ^ ?s / 2 ^ 149"
    unfolding float32_def Let_def q round_half_even_of_int ..
  also have "\<dots> = of_int m * (2 ^ ?s * 2 ^ d) / 2 ^ 149" by simp
  also have "\<dots> = ?x" by (subst (2) d) (simp only: power_add)
  finally show ?thesis .
qed

lemma float32_of_int:
  assumes "\<bar>k\<bar> < 2 ^ 24"
  shows "float32 (of_int k) = of_int k"
  using float32_exact[OF assms, of 149] by simp

lemma float32_of_int_times4:
  assumes "\<bar>k\<bar> < 2 ^ 24"
  shows "float32 (of_int (4 * k)) = of_int (4 * k)"
  using float32_exact[OF assms, of 151] by simp

lemma float32_0 [simp]: "float32 0 = 0"
  using float32_of_int[of 0] by simp

lemma float32_1 [simp]: "float32 1 = 1"
  using float32_of_int[of 1] by simp

lemma float32_binade_24:
  assumes "2 ^ 24 \<le> k" "k < 2 ^ 25"
  shows "float32 (of_int k) = 2 * of_int (round_half_even (of_int k / 2))"
proof -
  have "k = 2 ^ 24 + (k - 2 ^ 24)" by simp
  have fl: "\<lfloor>\<bar>of_int k :: real\<bar> * 2 ^ 149\<rfloor> = k * 2 ^ 149"
  proof -
    have "\<bar>of_int k :: real\<bar> * 2 ^ 149 = of_int (k * 2 ^ 149)"
      using assms by simp
    then show ?thesis by (simp only: floor_of_int)
  qed
  have b: "bitlen k = 25"
    using bitlen_twopow_add_eq[of "k - 2 ^ 24" 24] assms by simp
  have "bitlen (k * 2 ^ 149) = bitlen k + 149"
    using bitlen_pow2[of k 149] assms by simp
  then have s: "nat (bitlen \<lfloor>\<bar>of_int k :: real\<bar> * 2 ^ 149\<rfloor> - 24) = 150"
    unfolding fl b by simp
  have q: "(of_int k :: real) * 2 ^ 149 / 2 ^ 150 = of_int k / 2" by simp
  show ?thesis
    unfolding float32_def Let_def s q by simp
qed

lemma round_half_even_half:
  "\<exists>h. round_half_even (of_int k / 2) = h \<and> \<bar>2 * h - k\<bar> \<le> 1"
proof (cases "even k")
  case True
  then obtain h where "k = 2 * h" by (elim evenE)
  then show ?thesis by simp
next
  case False
  then obtain h where h: "k = 2 * h + 1" by (elim oddE)
  have fl: "\<lfloor>of_int k / 2 :: real\<rfloor> = h"
    unfolding h by (simp add: floor_eq_iff)
  have r: "(of_int k / 2 :: real) - of_int h = 1 / 2" unfolding h by (simp add: field_simps)
  show ?thesis
    unfolding round_half_even_def Let_def fl r using h by auto
qed

lemma float32_binade_24_even:
  assumes "2 ^ 24 \<le> k" "k < 2 ^ 25"
  shows "\<exists>h. float32 (of_int k) = of_int (2 * h) \<and> \<bar>2 * h - k\<bar> \<le> 1"
  using round_half_even_half[of k] unfolding float32_binade_24[OF assms] by auto

lemma index_cast_of_int [simp]: "index_cast (of_int k) = k"
  by (simp add: index_cast_def)

lemma float32_index_4097:
  assumes "0 \<le> k" "k < 16785409"
  shows "\<exists>r. float32 (of_int k) = of_int r \<and> 0 \<le> r \<and> r < 16785409 \<and> r \<noteq> 16777217"
proof (cases "k < 2 ^ 24")
  case True
  then have "float32 (of_int k) = of_int k" using assms by (intro float32_of_int) simp
  then show ?thesis using assms True by (intro exI[of _ k]) simp
next
  case False
  then have k: "2 ^ 24 \<le> k" "k < 2 ^ 25" using assms by simp_all
  obtain h where h: "float32 (of_int k) = of_int (2 * h)" "\<bar>2 * h - k\<bar> \<le> 1"
    using float32_binade_24_even[OF k] by blast
  have "0 \<le> 2 * h" "2 * h < 16785409" "2 * h \<noteq> 16777217"
    using h(2) k assms by presburger+
  then show ?thesis using h(1) by blast
qed

lemma float32_16777216: "float32 16777216 = 16777216"
  using float32_binade_24[of 16777216] round_half_even_of_int[of 8388608] by simp

lemma float32_16777217: "float32 16777217 = 16777216"
proof -
  have "round_half_even (16777217 / 2) = 8388608"
    by (simp add: round_half_even_def Let_def)
  then show ?thesis
    using float32_binade_24[of 16777217] by simp
qed

section \<open>The builder runs to the triplets of every grid point\<close>

lemma length_cell_entries:
  "length (cell_entries N j i) = (if i = 0 \<or> i = N - 1 \<or> j = 0 \<or> j = N - 1 then 1 else 5)"
  by (simp add: cell_entries_def Let_def)

lemma entries_upto_Suc:
  "entries_upto N (Suc m) = entries_upto N m @ cell_entries N (int m div N) (int m mod N)"
  by (simp add: entries_upto_def)

lemma entries_upto_0: "entries_upto N 0 = []"
  by (simp add: entries_upto_def)

lemma length_entries_upto_mono:
  "a \<le> b \<Longrightarrow> length (entries_upto N a) \<le> length (entries_upto N b)"
  by (induction b) (auto simp: entries_upto_Suc le_Suc_eq)

lemma row_sum:
  "m < n \<Longrightarrow> sum_list (map (\<lambda>q. if q = 0 \<or> q = n - 1 then (1::nat) else 5) [0..<Suc m])
     = (if m = n - 1 then (if m = 0 then 1 else 5 * m - 3) else 1 + 5 * m)"
  by (induction m) auto

lemma div_mod_cell:
  assumes "q < n"
  shows "int (j * n + q) div int n = int j" "int (j * n + q) mod int n = int q"
proof -
  have "(j * n + q) div n = j" "(j * n + q) mod n = q" using assms by simp_all
  then show "int (j * n + q) div int n = int j" "int (j * n + q) mod int n = int q"
    by (metis zdiv_int, metis zmod_int)
qed

lemma upt_row_split: "[0..<j * n + n] = [0..<j * n] @ map (\<lambda>q. j * n + q) [0..<n]"
proof -
  have "[0..<j * n + n] = [0..<j * n] @ [j * n..<j * n + n]"
    by (rule upt_add_eq_append) simp
  moreover have "map (\<lambda>q. q + j * n) [0..<n] = [j * n..<n + j * n]"
    by (rule map_add_upt)
  moreover have "(\<lambda>q. q + j * n) = (\<lambda>q. j * n + q)" "n + j * n = j * n + n"
    by (auto simp only: add.commute)
  ultimately show ?thesis by (simp only:)
qed

lemma length_row_cells:
  assumes "j < n"
  shows "length (concat (map (\<lambda>q. cell_entries (int n) (int q div int n) (int q mod int n))
            (map (\<lambda>q. j * n + q) [0..<n])))
      = sum_list (map (\<lambda>q. length (cell_entries (int n) (int j) (int q))) [0..<n])"
proof -
  have "map (\<lambda>q. length (cell_entries (int n) (int (j * n + q) div int n) (int (j * n + q) mod int n))) [0..<n]
      = map (\<lambda>q. length (cell_entries (int n) (int j) (int q))) [0..<n]"
    by (rule map_cong[OF refl]) (simp only: div_mod_cell atLeastLessThan_iff set_upt)
  then show ?thesis
    by (simp only: length_concat map_map comp_def)
qed

lemma length_row:
  assumes "2 \<le> n" "j < n"
  shows "length (entries_upto (int n) (j * n + n))
       = length (entries_upto (int n) (j * n)) + (if j = 0 \<or> j = n - 1 then n else 5 * n - 8)"
proof -
  have "sum_list (map (\<lambda>q. length (cell_entries (int n) (int j) (int q))) [0..<n])
      = sum_list (map (\<lambda>q. if j = 0 \<or> j = n - 1 then 1 else if q = 0 \<or> q = n - 1 then (1::nat) else 5) [0..<n])"
    using assms by (intro arg_cong[where f = sum_list] map_cong) (auto simp: length_cell_entries)
  also have "\<dots> = (if j = 0 \<or> j = n - 1 then n else 5 * n - 8)"
  proof (cases "j = 0 \<or> j = n - 1")
    case True
    then show ?thesis by (simp add: sum_list_triv)
  next
    case False
    obtain m where m: "n = Suc m" using assms by (cases n) auto
    have "sum_list (map (\<lambda>q. if q = 0 \<or> q = n - 1 then (1::nat) else 5) [0..<Suc m]) = 5 * m - 3"
      using row_sum[of m n] assms m by simp
    then show ?thesis using False m by simp
  qed
  finally show ?thesis
    unfolding entries_upto_def upt_row_split map_append concat_append length_append
      length_row_cells[OF assms(2)] by simp
qed

lemma length_rows:
  assumes "2 \<le> n"
  shows "j < n \<Longrightarrow> int (length (entries_upto (int n) (j * n)))
           = (if j = 0 then 0 else int n + (int j - 1) * (5 * int n - 8))"
proof (induction j)
  case 0
  then show ?case by (simp add: entries_upto_0)
next
  case (Suc j)
  then have j: "j < n" "j \<noteq> n - 1" by auto
  have eq: "Suc j * n = j * n + n" by simp
  have "int (length (entries_upto (int n) (Suc j * n)))
      = int (length (entries_upto (int n) (j * n))) + (if j = 0 then int n else 5 * int n - 8)"
    unfolding eq length_row[OF assms j(1)] using j assms by (simp add: of_nat_diff)
  also have "\<dots> = int n + (int (Suc j) - 1) * (5 * int n - 8)"
    using Suc.IH[OF j(1)] by (cases "j = 0") (simp_all add: algebra_simps)
  finally show ?case by simp
qed

lemma length_entries_total:
  assumes "2 \<le> n"
  shows "int (length (entries_upto (int n) (n * n))) = 5 * (int n)\<^sup>2 - 16 * int n + 16"
proof -
  obtain m where m: "n = Suc m" using assms by (cases n) auto
  have "length (entries_upto (int n) (m * n + n)) = length (entries_upto (int n) (m * n)) + n"
    using length_row[OF assms, of m] m by simp
  moreover have "int (length (entries_upto (int n) (m * n))) = int n + (int m - 1) * (5 * int n - 8)"
    using length_rows[OF assms, of m] m assms by auto
  moreover have "m * n + n = n * n" using m by simp
  moreover have "int m = int n - 1" using m by simp
  ultimately have "int (length (entries_upto (int n) (n * n)))
      = int n + (int n - 2) * (5 * int n - 8) + int n"
    by simp
  then show ?thesis by (simp add: power2_eq_square algebra_simps)
qed

lemma loop_body_effect:
  assumes "c + length (map stored (cell_entries N j i)) \<le> length R"
    and "length C = length R" "length D = length R"
    and "0 \<le> j * N + i" "nat (j * N + i) < length F"
  shows "loop_body N j i (R, C, D, F, int c) =
     Some (take c R @ map fst (map stored (cell_entries N j i))
             @ drop (c + length (map stored (cell_entries N j i))) R,
           take c C @ map (fst \<circ> snd) (map stored (cell_entries N j i))
             @ drop (c + length (map stored (cell_entries N j i))) C,
           take c D @ map (snd \<circ> snd) (map stored (cell_entries N j i))
             @ drop (c + length (map stored (cell_entries N j i))) D,
           F[nat (j * N + i) := (if i = 0 \<or> i = N - 1 \<or> j = 0 \<or> j = N - 1 then 0 else 1)],
           int (c + length (map stored (cell_entries N j i))))"
proof (cases "i = 0 \<or> i = N - 1 \<or> j = 0 \<or> j = N - 1")
  case True
  then have ce: "map stored (cell_entries N j i)
      = [(float32 (of_int (j * N + i)), float32 (of_int (j * N + i)), 1)]"
    by (simp add: cell_entries_def stored_def Let_def
        del: of_int_add of_int_diff of_int_mult of_int_minus)
  have fw: "setitem F (j * N + i) 0 = Some (F[nat (j * N + i) := 0])"
    using assms(4,5) by (simp add: setitem_def Let_def)
  show ?thesis using True assms(1-3) unfolding ce
    by (simp add: loop_body_def setitem_nat fw upd_conv_take_nth_drop)
next
  case False
  then have ce: "map stored (cell_entries N j i)
      = [(float32 (of_int (j * N + i)), float32 (of_int (j * N + i)), float32 (of_int (4 * (N - 1)\<^sup>2))),
         (float32 (of_int (j * N + i)), float32 (of_int (j * N + i + 1)), float32 (of_int (- ((N - 1)\<^sup>2)))),
         (float32 (of_int (j * N + i)), float32 (of_int (j * N + i - 1)), float32 (of_int (- ((N - 1)\<^sup>2)))),
         (float32 (of_int (j * N + i)), float32 (of_int ((j + 1) * N + i)), float32 (of_int (- ((N - 1)\<^sup>2)))),
         (float32 (of_int (j * N + i)), float32 (of_int ((j - 1) * N + i)), float32 (of_int (- ((N - 1)\<^sup>2))))]"
    by (simp add: cell_entries_def stored_def Let_def
        del: of_int_add of_int_diff of_int_mult of_int_minus)
  have fw: "setitem F (j * N + i) 1 = Some (F[nat (j * N + i) := 1])"
    using assms(4,5) by (simp add: setitem_def Let_def)
  have len: "c + 5 \<le> length R" "c + 5 \<le> length C" "c + 5 \<le> length D"
    using assms(1-3) by (simp_all add: ce)
  have s0: "setitem C (int c) v = Some (C[c := v])" for v
    using len by (simp add: setitem_nat)
  have s1: "length C' = length C \<Longrightarrow> setitem C' (int c + 1) v = Some (C'[c + 1 := v])" for v :: real and C'
    using len setitem_nat_add[of c 1 C' v] by simp
  have s2: "length C' = length C \<Longrightarrow> setitem C' (int c + 2) v = Some (C'[c + 2 := v])" for v :: real and C'
    using len setitem_nat_add[of c 2 C' v] by simp
  have s3: "length C' = length C \<Longrightarrow> setitem C' (int c + 3) v = Some (C'[c + 3 := v])" for v :: real and C'
    using len setitem_nat_add[of c 3 C' v] by simp
  have s4: "length C' = length C \<Longrightarrow> setitem C' (int c + 4) v = Some (C'[c + 4 := v])" for v :: real and C'
    using len setitem_nat_add[of c 4 C' v] by simp
  have d0: "setitem D (int c) v = Some (D[c := v])" for v
    using len by (simp add: setitem_nat)
  have rs: "setslice R (int c) (int c + 5) v = take c R @ [v, v, v, v, v] @ drop (c + 5) R" for v
    using setslice_nat[of c 5 R v] len by (simp add: numeral_eq_Suc)
  have ds: "setslice (D[c := a]) (int c + 1) (int c + 5) v
      = take c D @ [a, v, v, v, v] @ drop (c + 5) D" for v a
  proof -
    have "setslice (D[c := a]) (int (c + 1)) (int (c + 1) + int 4) v
       = take (c + 1) (D[c := a]) @ replicate 4 v @ drop (c + 1 + 4) (D[c := a])"
      by (rule setslice_nat) (use len in simp)
    moreover have "take (c + 1) (D[c := a]) = take c D @ [a]"
      using len by (simp add: take_Suc_conv_app_nth)
    ultimately show ?thesis by (simp add: numeral_eq_Suc add.commute)
  qed
  have cs: "C[c := a0, c + 1 := a1, c + 2 := a2, c + 3 := a3, c + 4 := a4]
     = take c C @ [a0, a1, a2, a3, a4] @ drop (c + 5) C" for a0 a1 a2 a3 a4
    using list_update5[of c C] len by simp
  have L: "length (map stored (cell_entries N j i)) = 5" by (simp add: ce)
  show ?thesis using False unfolding L unfolding ce
    by (simp add: loop_body_def s0 s1 s2 s3 s4 d0 rs ds cs[simplified] fw
        del: of_int_add of_int_diff of_int_mult of_int_minus)
qed

lemma builder_step:
  assumes n: "2 \<le> n" and m: "m < n * n"
  shows "loop_body (int n) (int (m div n)) (int (m mod n)) (builder_state mem (int n) m)
       = Some (builder_state mem (int n) (Suc m))"
proof -
  let ?N = "int n"
  let ?E = "map stored (entries_upto ?N m)"
  let ?ce = "map stored (cell_entries ?N (int (m div n)) (int (m mod n)))"
  let ?L = "nat (5 * ?N\<^sup>2 - 16 * ?N + 16)"
  let ?R0 = "np_empty mem ''row_ind'' (5 * ?N\<^sup>2 - 16 * ?N + 16)"
  let ?C0 = "np_empty mem ''col_ind'' (5 * ?N\<^sup>2 - 16 * ?N + 16)"
  let ?D0 = "np_empty mem ''data'' (5 * ?N\<^sup>2 - 16 * ?N + 16)"
  let ?F0 = "np_empty mem ''f'' (?N * ?N)"
  have Suc_E: "map stored (entries_upto ?N (Suc m)) = ?E @ ?ce"
    by (simp add: entries_upto_Suc zdiv_int zmod_int)
  have total: "length (entries_upto ?N (n * n)) = ?L"
    using length_entries_total[OF n] by simp
  have "length (entries_upto ?N (Suc m)) \<le> length (entries_upto ?N (n * n))"
    using m by (intro length_entries_upto_mono) simp
  then have bound: "length ?E + length ?ce \<le> ?L"
    by (simp add: entries_upto_Suc zdiv_int zmod_int total)
  have k: "int (m div n) * ?N + int (m mod n) = int m"
    by (metis div_mult_mod_eq of_nat_add of_nat_mult)
  have lenF: "length ?F0 = n * n"
    by (simp add: length_np_empty nat_mult_distrib flip: of_nat_mult)
  have rhs: "(if int (m mod n) = 0 \<or> int (m mod n) = ?N - 1 \<or> int (m div n) = 0 \<or> int (m div n) = ?N - 1
              then 0 else 1) = rhs_value ?N m"
    by (simp add: rhs_value_def Let_def zdiv_int zmod_int)
  have rows: "length (map fst ?E @ drop (length ?E) ?R0) = ?L"
    and cols: "length (map (fst \<circ> snd) ?E @ drop (length ?E) ?C0) = ?L"
    and dats: "length (map (snd \<circ> snd) ?E @ drop (length ?E) ?D0) = ?L"
    using bound by (simp_all add: length_np_empty)
  have eff: "loop_body ?N (int (m div n)) (int (m mod n))
       (map fst ?E @ drop (length ?E) ?R0, map (fst \<circ> snd) ?E @ drop (length ?E) ?C0,
        map (snd \<circ> snd) ?E @ drop (length ?E) ?D0, map (rhs_value ?N) [0..<m] @ drop m ?F0,
        int (length ?E))
     = Some (take (length ?E) (map fst ?E @ drop (length ?E) ?R0) @ map fst ?ce
               @ drop (length ?E + length ?ce) (map fst ?E @ drop (length ?E) ?R0),
             take (length ?E) (map (fst \<circ> snd) ?E @ drop (length ?E) ?C0) @ map (fst \<circ> snd) ?ce
               @ drop (length ?E + length ?ce) (map (fst \<circ> snd) ?E @ drop (length ?E) ?C0),
             take (length ?E) (map (snd \<circ> snd) ?E @ drop (length ?E) ?D0) @ map (snd \<circ> snd) ?ce
               @ drop (length ?E + length ?ce) (map (snd \<circ> snd) ?E @ drop (length ?E) ?D0),
             (map (rhs_value ?N) [0..<m] @ drop m ?F0)[nat (int (m div n) * ?N + int (m mod n)) :=
                (if int (m mod n) = 0 \<or> int (m mod n) = ?N - 1 \<or> int (m div n) = 0 \<or> int (m div n) = ?N - 1
                 then 0 else 1)],
             int (length ?E + length ?ce))"
    by (rule loop_body_effect) (use bound m lenF in \<open>simp_all add: rows cols dats k length_np_empty\<close>)
  have fupd: "(map (rhs_value ?N) [0..<m] @ drop m ?F0)[m := rhs_value ?N m]
     = map (rhs_value ?N) [0..<Suc m] @ drop (Suc m) ?F0"
    using m lenF by (simp add: list_update_append upd_conv_take_nth_drop)
  have r: "take (length ?E) (map g ?E @ drop (length ?E) X) @ map g ?ce
               @ drop (length ?E + length ?ce) (map g ?E @ drop (length ?E) X)
           = map g (?E @ ?ce) @ drop (length (?E @ ?ce)) X" for g :: "real \<times> real \<times> real \<Rightarrow> real" and X
    by (simp add: add.commute)
  have fu: "(map (rhs_value ?N) [0..<m] @ drop m ?F0)[nat (int (m div n) * ?N + int (m mod n)) :=
                (if int (m mod n) = 0 \<or> int (m mod n) = ?N - 1 \<or> int (m div n) = 0 \<or> int (m div n) = ?N - 1
                 then 0 else 1)] = map (rhs_value ?N) [0..<Suc m] @ drop (Suc m) ?F0"
    unfolding k rhs nat_int by (rule fupd)
  have c: "int (length ?E + length ?ce) = int (length (?E @ ?ce))" by simp
  show ?thesis
    unfolding builder_state_def Let_def eff Suc_E r fu c ..
qed

lemma py_range_int: "py_range (int n) = map int [0..<n]"
  by (simp add: py_range_def)

lemma builder_row:
  assumes n: "2 \<le> n" and j: "j < n"
  shows "for_each (py_range (int n)) (\<lambda>i. loop_body (int n) (int j) i)
           (builder_state mem (int n) (j * n))
       = Some (builder_state mem (int n) (j * n + n))"
proof -
  have "for_each (py_range (int n)) (\<lambda>i. loop_body (int n) (int j) i)
           (builder_state mem (int n) (j * n))
       = Some (builder_state mem (int n) (j * n + length (py_range (int n))))"
  proof (rule for_each_steps)
    fix q assume "q < length (py_range (int n))"
    then have q: "q < n" by (simp add: py_range_int)
    have "j * n + q < j * n + n" using q by simp
    also have "\<dots> = Suc j * n" by simp
    also have "\<dots> \<le> n * n" using j by (intro mult_le_mono1) simp
    finally have m: "j * n + q < n * n" .
    have "(j * n + q) div n = j" "(j * n + q) mod n = q" using q by simp_all
    with builder_step[OF n m, of mem] q
    show "loop_body (int n) (int j) (py_range (int n) ! q) (builder_state mem (int n) (j * n + q))
        = Some (builder_state mem (int n) (j * n + Suc q))"
      by (simp add: py_range_int)
  qed
  then show ?thesis by (simp add: py_range_int)
qed

lemma builder_loops:
  assumes n: "2 \<le> n"
  shows "for_each (py_range (int n)) (\<lambda>j. for_each (py_range (int n)) (\<lambda>i. loop_body (int n) j i))
           (builder_state mem (int n) 0)
       = Some (builder_state mem (int n) (n * n))"
proof -
  let ?S = "\<lambda>j. builder_state mem (int n) (j * n)"
  have "for_each (py_range (int n)) (\<lambda>j. for_each (py_range (int n)) (\<lambda>i. loop_body (int n) j i))
           (?S 0) = Some (?S (0 + length (py_range (int n))))"
  proof (rule for_each_steps[where S = ?S])
    fix q assume "q < length (py_range (int n))"
    then have q: "q < n" by (simp add: py_range_int)
    show "for_each (py_range (int n)) (\<lambda>i. loop_body (int n) (py_range (int n) ! q) i) (?S (0 + q))
        = Some (?S (0 + Suc q))"
      using builder_row[OF n q, of mem] q by (simp add: py_range_int add.commute)
  qed
  then show ?thesis by (simp add: py_range_int)
qed

lemma discretise_poisson_loops:
  assumes "2 \<le> N"
  shows "discretise_poisson mem N =
     do {
       A \<leftarrow> coo_matrix_init (map (snd \<circ> snd) (map stored (entries_upto N (nat (N * N)))))
              (map fst (map stored (entries_upto N (nat (N * N)))))
              (map (fst \<circ> snd) (map stored (entries_upto N (nat (N * N)))))
              (N\<^sup>2, N\<^sup>2);
       Some (A, map (rhs_value N) [0..<nat (N * N)])
     }"
proof -
  obtain n where N: "N = int n" and n: "2 \<le> n"
    using assms by (metis nat_le_iff nat_numeral nonneg_int_cases order_trans zero_le_numeral le_cases)
  have nn: "nat (int n * int n) = n * n"
    by (simp add: nat_mult_distrib)
  have total: "length (entries_upto (int n) (n * n)) = nat (5 * (int n)\<^sup>2 - 16 * int n + 16)"
    using length_entries_total[OF n] by simp
  have start: "builder_state mem (int n) 0
     = (np_empty mem ''row_ind'' (5 * (int n)\<^sup>2 - 16 * int n + 16),
        np_empty mem ''col_ind'' (5 * (int n)\<^sup>2 - 16 * int n + 16),
        np_empty mem ''data'' (5 * (int n)\<^sup>2 - 16 * int n + 16),
        np_empty mem ''f'' (int n * int n), 0)"
    by (simp add: builder_state_def entries_upto_0 Let_def)
  have stop: "builder_state mem (int n) (n * n)
     = (map fst (map stored (entries_upto (int n) (n * n))),
        map (fst \<circ> snd) (map stored (entries_upto (int n) (n * n))),
        map (snd \<circ> snd) (map stored (entries_upto (int n) (n * n))),
        map (rhs_value (int n)) [0..<n * n],
        int (length (map stored (entries_upto (int n) (n * n)))))"
    unfolding builder_state_def Let_def length_map total
    by (simp add: length_np_empty nn)
  show ?thesis
    unfolding N discretise_poisson_def Let_def start[symmetric] builder_loops[OF n] stop nn
    by simp
qed

lemma zip_triplets: "zip (map fst E) (zip (map (fst \<circ> snd) E) (map (snd \<circ> snd) E)) = E"
  by (induction E) auto

lemma cell_entries_row:
  "t \<in> set (cell_entries N j i) \<Longrightarrow> fst t = j * N + i"
  by (auto simp: cell_entries_def Let_def split: if_splits)

lemma entries_upto_row:
  "t \<in> set (entries_upto N m) \<Longrightarrow> \<exists>q<m. fst t = int q"
proof (induction m)
  case 0
  then show ?case by (simp add: entries_upto_0)
next
  case (Suc m)
  then consider "t \<in> set (entries_upto N m)" | "t \<in> set (cell_entries N (int m div N) (int m mod N))"
    by (auto simp: entries_upto_Suc)
  then show ?case
  proof cases
    case 1
    then show ?thesis using Suc.IH less_Suc_eq by blast
  next
    case 2
    then have "fst t = int m div N * N + int m mod N" by (rule cell_entries_row)
    then show ?thesis by auto
  qed
qed

lemma filter_row_cell:
  "filter (\<lambda>t. fst t = k) (cell_entries N j i)
     = (if k = j * N + i then cell_entries N j i else [])"
proof (cases "k = j * N + i")
  case True
  then have "\<forall>t\<in>set (cell_entries N j i). fst t = k"
    by (auto dest: cell_entries_row)
  then show ?thesis using True by (simp add: filter_id_conv)
next
  case False
  then have "\<forall>t\<in>set (cell_entries N j i). fst t \<noteq> k"
    by (auto dest!: cell_entries_row)
  then show ?thesis using False by (simp add: filter_empty_conv)
qed

lemma filter_row_entries:
  "filter (\<lambda>t. fst t = int k) (entries_upto N m)
     = (if k < m then cell_entries N (int k div N) (int k mod N) else [])"
proof (induction m)
  case 0
  then show ?case by (simp add: entries_upto_0)
next
  case (Suc m)
  have "filter (\<lambda>t. fst t = int k) (cell_entries N (int m div N) (int m mod N))
      = (if k = m then cell_entries N (int m div N) (int m mod N) else [])"
    unfolding filter_row_cell by simp
  then show ?case
    using Suc by (auto simp: entries_upto_Suc)
qed

lemma distinct_cell_positions:
  assumes "2 \<le> N"
  shows "distinct (map (\<lambda>t. (fst t, fst (snd t))) (cell_entries N j i))"
  using assms by (simp add: cell_entries_def Let_def algebra_simps)

lemma distinct_positions:
  assumes "2 \<le> N"
  shows "distinct (map (\<lambda>t. (fst t, fst (snd t))) (entries_upto N m))"
proof (induction m)
  case 0
  then show ?case by (simp add: entries_upto_0)
next
  case (Suc m)
  have "fst t \<noteq> fst u"
    if a: "t \<in> set (entries_upto N m)" and b: "u \<in> set (cell_entries N (int m div N) (int m mod N))" for t u
  proof -
    obtain q where "q < m" "fst t = int q" using entries_upto_row[OF a] by blast
    moreover have "fst u = int m" using cell_entries_row[OF b] by simp
    ultimately show ?thesis by simp
  qed
  then show ?case
    using Suc distinct_cell_positions[OF assms] by (auto simp: entries_upto_Suc)
qed

lemma cell_entries_nonzero:
  assumes "2 \<le> N" "t \<in> set (cell_entries N j i)"
  shows "snd (snd t) \<noteq> 0"
  using assms by (auto simp: cell_entries_def Let_def split: if_splits)

lemma entries_nonzero:
  assumes "2 \<le> N" "t \<in> set (entries_upto N m)"
  shows "snd (snd t) \<noteq> 0"
  using assms(2) by (induction m) (auto simp: entries_upto_0 entries_upto_Suc cell_entries_nonzero[OF assms(1)])

lemma filter_position_distinct:
  "distinct (map (\<lambda>t. (fst t, fst (snd t))) E) \<Longrightarrow> t \<in> set E \<Longrightarrow>
   filter (\<lambda>u. fst u = fst t \<and> fst (snd u) = fst (snd t)) E = [t]"
proof (induction E)
  case Nil
  then show ?case by simp
next
  case (Cons e E)
  show ?case
  proof (cases "t = e")
    case True
    have "\<forall>u\<in>set E. \<not> (fst u = fst t \<and> fst (snd u) = fst (snd t))"
      using Cons.prems(1) True by (auto simp: image_iff)
    then show ?thesis using True by (simp add: filter_empty_conv)
  next
    case False
    then have "t \<in> set E" using Cons.prems by simp
    moreover have "\<not> (fst e = fst t \<and> fst (snd e) = fst (snd t))"
      using Cons.prems(1) \<open>t \<in> set E\<close> by (auto simp: image_iff)
    ultimately show ?thesis using Cons by simp
  qed
qed

lemma nnz_entries:
  assumes "2 \<le> N"
  shows "nnz (COO (map (snd \<circ> snd) (entries_upto N m)) (map fst (entries_upto N m))
               (map (fst \<circ> snd) (entries_upto N m)) sh) = length (entries_upto N m)"
proof -
  let ?E = "entries_upto N m"
  let ?A = "COO (map (snd \<circ> snd) ?E) (map fst ?E) (map (fst \<circ> snd) ?E) sh"
  have tr: "triplets ?A = ?E" by (simp add: triplets_def zip_triplets)
  have pos: "zip (coo_row ?A) (coo_col ?A) = map (\<lambda>t. (fst t, fst (snd t))) ?E"
    by (simp add: zip_map_map zip_same_conv_map)
  have d: "distinct (map (\<lambda>t. (fst t, fst (snd t))) ?E)" by (rule distinct_positions[OF assms])
  have "entry ?A (fst t) (fst (snd t)) \<noteq> 0" if "t \<in> set ?E" for t
    unfolding entry_def tr filter_position_distinct[OF d that]
    using entries_nonzero[OF assms that] by simp
  then have "\<forall>p\<in>set (map (\<lambda>t. (fst t, fst (snd t))) ?E). entry ?A (fst p) (snd p) \<noteq> 0"
    by auto
  then show ?thesis
    unfolding nnz_def pos distinct_remdups_id[OF d] by (simp add: filter_id_conv)
qed

section \<open>The kernel without shared memory computes the stencil\<close>

lemma for_each_writes:
  assumes step: "\<And>x s. x \<in> set xs \<Longrightarrow> length s = n \<Longrightarrow>
      \<exists>s'. body x s = Some s' \<and> length s' = n \<and> (\<forall>k<n. s' ! k = (if k \<in> W x then V k else s ! k))"
    and len: "length s = n"
  shows "\<exists>s'. for_each xs body s = Some s' \<and> length s' = n
           \<and> (\<forall>k<n. s' ! k = (if k \<in> (\<Union>x\<in>set xs. W x) then V k else s ! k))"
  using step len
proof (induction xs arbitrary: s)
  case Nil
  then show ?case by simp
next
  case (Cons x xs)
  obtain s1 where s1: "body x s = Some s1" "length s1 = n"
      "\<forall>k<n. s1 ! k = (if k \<in> W x then V k else s ! k)"
    using Cons.prems(1)[of x s] Cons.prems(2) by auto
  obtain s2 where s2: "for_each xs body s1 = Some s2" "length s2 = n"
      "\<forall>k<n. s2 ! k = (if k \<in> (\<Union>y\<in>set xs. W y) then V k else s1 ! k)"
    using Cons.IH[of s1] Cons.prems(1) s1(2) by auto
  have "\<forall>k<n. s2 ! k = (if k \<in> (\<Union>y\<in>set (x # xs). W y) then V k else s ! k)"
    using s1(3) s2(3) by auto
  then show ?case using s1(1) s2(1,2) by simp
qed

lemma set_py_range: "set (py_range n) = {0..<n}"
proof
  show "set (py_range n) \<subseteq> {0..<n}"
    by (auto simp: py_range_def)
  show "{0..<n} \<subseteq> set (py_range n)"
  proof
    fix x assume "x \<in> {0..<n}"
    then have "nat x < nat n" "int (nat x) = x" by auto
    then show "x \<in> set (py_range n)"
      unfolding py_range_def set_map set_upt by (metis atLeastLessThan_iff image_eqI zero_le)
  qed
qed

lemma set_grid_blocks:
  "set (grid_blocks (gx, gy)) = {(bi, bj). 0 \<le> bi \<and> bi < gx \<and> 0 \<le> bj \<and> bj < gy}"
  by (auto simp: grid_blocks_def set_py_range)

lemma set_block_threads:
  "set (block_threads (dx, dy)) = {(ti, tj). 0 \<le> ti \<and> ti < dx \<and> 0 \<le> tj \<and> tj < dy}"
  by (auto simp: block_threads_def set_py_range)

lemma set_launch:
  "set (launch g d) = set (grid_blocks g) \<times> set (block_threads d)"
  by (auto simp: launch_def)

lemma grid_covers:
  fixes p M :: int
  assumes "0 \<le> p" "p < M"
  shows "0 \<le> p div 32" "p div 32 < (M + 31) div 32" "0 \<le> p mod 32" "p mod 32 < 32"
    "p div 32 * 32 + p mod 32 = p"
proof -
  show "0 \<le> p div 32" using assms by (simp add: pos_imp_zdiv_nonneg_iff)
  have "p div 32 + 1 = (p + 32) div 32" by simp
  also have "\<dots> \<le> (M + 31) div 32" using assms by (intro zdiv_mono1) auto
  finally show "p div 32 < (M + 31) div 32" by simp
qed simp_all


lemma flat_bounds:
  fixes i j N :: int
  assumes "0 \<le> i" "i < N" "0 \<le> j" "j < N"
  shows "0 \<le> j * N + i" "j * N + i < N * N"
proof -
  show "0 \<le> j * N + i" using assms by simp
  have "j * N \<le> (N - 1) * N" using assms by (intro mult_right_mono) auto
  then show "j * N + i < N * N" using assms by (simp add: algebra_simps)
qed

lemma flat_div_mod:
  fixes i j N :: int
  assumes "0 \<le> i" "i < N"
  shows "(j * N + i) div N = j" "(j * N + i) mod N = i"
  using assms by (simp_all add: div_pos_pos_trivial)

lemma ld_Some: "0 \<le> k \<Longrightarrow> k < int (length a) \<Longrightarrow> ld a k = Some (a ! nat k)"
  by (simp add: ld_def)

lemma st_Some: "0 \<le> k \<Longrightarrow> k < int (length a) \<Longrightarrow> st a k v = Some (a[nat k := v])"
  by (simp add: st_def)

lemma naive_thread:
  assumes N: "2 \<le> N" and u: "int (length u) = N * N" and s: "int (length s) = N * N"
    and ij: "0 \<le> i" "0 \<le> j"
  shows "\<exists>s'. discretise_poisson_gpu N u (i, j) s = Some s' \<and> length s' = length s
     \<and> (\<forall>k<length s. s' ! k = (if k \<in> (if i < N \<and> j < N then {nat (j * N + i)} else {})
                               then stencil_value N u (int k) else s ! k))"
proof (cases "i < N \<and> j < N")
  case False
  then show ?thesis by (auto simp: discretise_poisson_gpu_def)
next
  case True
  then have i: "i < N" and j: "j < N" by auto
  let ?k = "j * N + i"
  have k: "0 \<le> ?k" "?k < N * N" using flat_bounds[OF ij(1) i ij(2) j] by auto
  have dm: "?k div N = j" "?k mod N = i" using flat_div_mod[OF ij(1) i] by auto
  show ?thesis
  proof (cases "i = 0 \<or> i = N - 1 \<or> j = 0 \<or> j = N - 1")
    case bnd: True
    have run: "discretise_poisson_gpu N u (i, j) s = Some (s[nat ?k := u ! nat ?k])"
      using bnd i j k by (simp add: discretise_poisson_gpu_def Let_def ld_Some st_Some u s)
    have v: "stencil_value N u ?k = u ! nat ?k"
      unfolding stencil_value_def Let_def dm using bnd by simp
    show ?thesis unfolding run using True k v
      by (auto simp: nth_list_update)
  next
    case int: False
    then have i1: "1 \<le> i" "i + 1 < N" and j1: "1 \<le> j" "j + 1 < N" using ij i j by auto
    have up: "0 \<le> (j + 1) * N + i" "(j + 1) * N + i < N * N"
      using flat_bounds[OF ij(1) i, of "j + 1"] j1 by auto
    have down: "0 \<le> (j - 1) * N + i" "(j - 1) * N + i < N * N"
      using flat_bounds[OF ij(1) i, of "j - 1"] j1 by auto
    have jN: "0 \<le> j * N" using ij N by simp
    have left: "0 \<le> j * N + i - 1" "j * N + i - 1 < N * N"
      using k i1 jN by auto
    have "j * N + (i + 1) < N * N"
      by (rule flat_bounds(2)) (use i1 ij j in auto)
    then have right: "0 \<le> j * N + i + 1" "j * N + i + 1 < N * N"
      using k by auto
    have run: "discretise_poisson_gpu N u (i, j) s =
        Some (s[nat ?k := of_int ((N - 1)\<^sup>2) * (4 * u ! nat ?k - u ! nat ((j + 1) * N + i)
            - u ! nat ((j - 1) * N + i) - u ! nat (j * N + i - 1) - u ! nat (j * N + i + 1))])"
      using int i j k up down left right
      by (simp add: discretise_poisson_gpu_def Let_def ld_Some st_Some u s)
    have e: "?k + N = (j + 1) * N + i" "?k - N = (j - 1) * N + i"
      by (simp_all add: algebra_simps)
    have v: "stencil_value N u ?k = of_int ((N - 1)\<^sup>2) * (4 * u ! nat ?k - u ! nat ((j + 1) * N + i)
            - u ! nat ((j - 1) * N + i) - u ! nat (j * N + i - 1) - u ! nat (j * N + i + 1))"
      using int unfolding stencil_value_def dm Let_def e by simp
    show ?thesis unfolding run using True k v
      by (auto simp: nth_list_update)
  qed
qed


lemma launch_nonneg:
  assumes "t \<in> set (launch g (32, 32))"
  shows "0 \<le> fst (cuda_grid (32, 32) t)" "0 \<le> snd (cuda_grid (32, 32) t)"
  using assms
  by (cases g; cases t; auto simp: set_launch set_grid_blocks set_block_threads cuda_grid_def)+

lemma launch_covers:
  fixes p q M :: int
  assumes "0 \<le> p" "p < M" "0 \<le> q" "q < M"
  shows "\<exists>t\<in>set (launch ((M + 31) div 32, (M + 31) div 32) (32, 32)). cuda_grid (32, 32) t = (p, q)"
proof -
  let ?t = "((p div 32, q div 32), (p mod 32, q mod 32))"
  have "?t \<in> set (launch ((M + 31) div 32, (M + 31) div 32) (32, 32))"
    using grid_covers[OF assms(1,2)] grid_covers[OF assms(3,4)]
    by (simp add: set_launch set_grid_blocks set_block_threads)
  moreover have "cuda_grid (32, 32) ?t = (p, q)"
    by (simp add: cuda_grid_def)
  ultimately show ?thesis by blast
qed

lemma launch_stencil:
  assumes N: "2 \<le> N" and u: "int (length u) = N * N"
  shows "for_each (launch ((N + 31) div 32, (N + 31) div 32) (32, 32))
           (\<lambda>t. discretise_poisson_gpu N u (cuda_grid (32, 32) t)) (np_empty mem ''res'' (N * N))
       = Some (map (\<lambda>k. stencil_value N u (int k)) [0..<nat (N * N)])"
proof -
  let ?n = "nat (N * N)"
  let ?res = "np_empty mem ''res'' (N * N)"
  let ?ts = "launch ((N + 31) div 32, (N + 31) div 32) (32, 32)"
  let ?W = "\<lambda>t. if fst (cuda_grid (32, 32) t) < N \<and> snd (cuda_grid (32, 32) t) < N
                then {nat (snd (cuda_grid (32, 32) t) * N + fst (cuda_grid (32, 32) t))} else {}"
  have len: "length ?res = ?n" by (simp add: length_np_empty)
  have nn: "int ?n = N * N" by simp
  have "\<exists>s'. for_each ?ts (\<lambda>t. discretise_poisson_gpu N u (cuda_grid (32, 32) t)) ?res = Some s'
      \<and> length s' = ?n
      \<and> (\<forall>k<?n. s' ! k = (if k \<in> (\<Union>t\<in>set ?ts. ?W t) then stencil_value N u (int k) else ?res ! k))"
  proof (rule for_each_writes[OF _ len])
    fix t and s :: "real list"
    assume t: "t \<in> set ?ts" and s: "length s = ?n"
    obtain i j where ij: "cuda_grid (32, 32) t = (i, j)" by (cases "cuda_grid (32, 32) t")
    have pos: "0 \<le> i" "0 \<le> j" using launch_nonneg[OF t] ij by auto
    have "int (length s) = N * N" using s nn by simp
    note th = naive_thread[OF N u this pos]
    show "\<exists>s'. discretise_poisson_gpu N u (cuda_grid (32, 32) t) s = Some s' \<and> length s' = ?n
        \<and> (\<forall>k<?n. s' ! k = (if k \<in> ?W t then stencil_value N u (int k) else s ! k))"
      using th unfolding ij fst_conv snd_conv s .
  qed
  then obtain s' where run: "for_each ?ts (\<lambda>t. discretise_poisson_gpu N u (cuda_grid (32, 32) t)) ?res = Some s'"
    and l: "length s' = ?n"
    and v: "\<forall>k<?n. s' ! k = (if k \<in> (\<Union>t\<in>set ?ts. ?W t) then stencil_value N u (int k) else ?res ! k)"
    by blast
  have cover: "k \<in> (\<Union>t\<in>set ?ts. ?W t)" if "k < ?n" for k
  proof -
    have N0: "0 < N" using N by simp
    have kk: "int k < N * N" using that by simp
    have a: "0 \<le> int k mod N" "int k mod N < N" using N0 by simp_all
    have b: "0 \<le> int k div N" using N0 by (simp add: pos_imp_zdiv_nonneg_iff)
    have "int k div N * N + int k mod N = int k" by simp
    then have "int k div N * N \<le> int k" using a(1) by linarith
    then have "int k div N * N < N * N" using kk by simp
    then have c: "int k div N < N" using N0 by simp
    obtain t where t: "t \<in> set ?ts" "cuda_grid (32, 32) t = (int k mod N, int k div N)"
      using launch_covers[OF a b c] by blast
    have "k \<in> ?W t" using t(2) a c by simp
    then show ?thesis using t(1) by blast
  qed
  have "s' = map (\<lambda>k. stencil_value N u (int k)) [0..<?n]"
    by (rule nth_equalityI) (use l v cover in auto)
  then show ?thesis using run by simp
qed

lemma eval_gpu_stencil:
  assumes N: "2 \<le> N" and u: "int (length u) = N * N"
  shows "eval_gpu mem N u
       = Some (map (\<lambda>k. stencil_value N (astype_float32 u) (int k)) [0..<nat (N * N)])"
proof -
  have "int (length (astype_float32 u)) = N * N"
    using u by (simp add: astype_float32_def)
  from launch_stencil[OF N this] show ?thesis
    by (simp add: eval_gpu_def Let_def)
qed


section \<open>The sparse matrix applied to a vector is the stencil\<close>

lemma entries_upto_cell:
  "t \<in> set (entries_upto N m) \<Longrightarrow> \<exists>q<m. t \<in> set (cell_entries N (int q div N) (int q mod N))"
  by (induction m) (auto simp: entries_upto_0 entries_upto_Suc less_Suc_eq)

lemma cell_entries_in_range:
  assumes N: "2 \<le> N" and i: "0 \<le> i" "i < N" and j: "0 \<le> j" "j < N"
    and t: "t \<in> set (cell_entries N j i)"
  shows "0 \<le> fst t \<and> fst t < N * N \<and> 0 \<le> fst (snd t) \<and> fst (snd t) < N * N"
proof -
  have k: "0 \<le> j * N + i" "j * N + i < N * N" using flat_bounds[OF i j] by auto
  show ?thesis
  proof (cases "i = 0 \<or> i = N - 1 \<or> j = 0 \<or> j = N - 1")
    case True
    then have "t = (j * N + i, j * N + i, 1)"
      using t by (simp add: cell_entries_def Let_def)
    then show ?thesis using k by simp
  next
    case False
    then have i1: "1 \<le> i" "i + 1 < N" and j1: "1 \<le> j" "j + 1 < N" using i j by auto
    have jN: "0 \<le> j * N" using j N by simp
    have up: "0 \<le> (j + 1) * N + i" "(j + 1) * N + i < N * N"
      using flat_bounds[OF i, of "j + 1"] j1 by auto
    have down: "0 \<le> (j - 1) * N + i" "(j - 1) * N + i < N * N"
      using flat_bounds[OF i, of "j - 1"] j1 by auto
    have left: "0 \<le> j * N + i - 1" "j * N + i - 1 < N * N"
      using k i1 jN by auto
    have "j * N + (i + 1) < N * N"
      by (rule flat_bounds(2)) (use i1 i j in auto)
    then have right: "0 \<le> j * N + i + 1" "j * N + i + 1 < N * N"
      using k by auto
    have "fst t = j * N + i" using t by (rule cell_entries_row)
    moreover have "fst (snd t) \<in> {j * N + i, j * N + i + 1, j * N + i - 1, (j + 1) * N + i, (j - 1) * N + i}"
      using t False by (auto simp: cell_entries_def Let_def)
    ultimately show ?thesis
      using k up down left right by auto
  qed
qed

lemma entries_in_range:
  assumes N: "2 \<le> N" and t: "t \<in> set (entries_upto N (nat (N * N)))"
  shows "0 \<le> fst t \<and> fst t < N * N \<and> 0 \<le> fst (snd t) \<and> fst (snd t) < N * N"
proof -
  obtain q where q: "q < nat (N * N)" "t \<in> set (cell_entries N (int q div N) (int q mod N))"
    using entries_upto_cell[OF t] by blast
  have N0: "0 < N" using N by simp
  have kk: "int q < N * N" using q(1) by simp
  have a: "0 \<le> int q mod N" "int q mod N < N" using N0 by simp_all
  have b: "0 \<le> int q div N" using N0 by (simp add: pos_imp_zdiv_nonneg_iff)
  have "int q div N * N + int q mod N = int q" by simp
  then have "int q div N * N \<le> int q" using a(1) by linarith
  then have "int q div N * N < N * N" using kk by simp
  then have c: "int q div N < N" using N0 by simp
  show ?thesis by (rule cell_entries_in_range[OF N a b c q(2)])
qed

lemma builder_valid:
  assumes N: "2 \<le> N"
  shows "coo_valid (COO (map (snd \<circ> snd) (entries_upto N (nat (N * N))))
               (map fst (entries_upto N (nat (N * N))))
               (map (fst \<circ> snd) (entries_upto N (nat (N * N)))) (N\<^sup>2, N\<^sup>2))"
  using entries_in_range[OF N]
  by (simp add: coo_valid_def triplets_def zip_triplets list_all_iff power2_eq_square)

lemma matvec_builder:
  assumes N: "2 \<le> N" and x: "int (length x) = N * N"
  shows "matvec (COO (map (snd \<circ> snd) (entries_upto N (nat (N * N))))
               (map fst (entries_upto N (nat (N * N))))
               (map (fst \<circ> snd) (entries_upto N (nat (N * N)))) (N\<^sup>2, N\<^sup>2)) x
       = Some (map (\<lambda>k. stencil_value N x (int k)) [0..<nat (N * N)])"
proof -
  let ?E = "entries_upto N (nat (N * N))"
  let ?A = "COO (map (snd \<circ> snd) ?E) (map fst ?E) (map (fst \<circ> snd) ?E) (N\<^sup>2, N\<^sup>2)"
  have row: "row_of ?A (int k) = cell_entries N (int k div N) (int k mod N)" if "k < nat (N * N)" for k
    unfolding row_of_def triplets_def coo_matrix.sel zip_triplets filter_row_entries
    using that by simp
  have val: "sum_list (map (\<lambda>t. snd (snd t) * x ! nat (fst (snd t)))
                 (cell_entries N (int k div N) (int k mod N))) = stencil_value N x (int k)" for k
  proof -
    have e: "int k div N * N + int k mod N = int k"
      "(int k div N + 1) * N + int k mod N = int k + N"
      "(int k div N - 1) * N + int k mod N = int k - N"
      by (simp_all add: algebra_simps)
    show ?thesis
      unfolding cell_entries_def stencil_value_def Let_def e
      by (simp add: algebra_simps)
  qed
  have "matvec ?A x = Some (map (\<lambda>k. sum_list (map (\<lambda>t. snd (snd t) * x ! nat (fst (snd t)))
            (row_of ?A (int k)))) [0..<nat (N * N)])"
    using builder_valid[OF N] x by (simp add: matvec_def power2_eq_square)
  also have "\<dots> = Some (map (\<lambda>k. stencil_value N x (int k)) [0..<nat (N * N)])"
    by (simp add: row val)
  finally show ?thesis .
qed

section \<open>The constructor on the arrays of the builder\<close>

lemma coo_matrix_init_stored:
  assumes "\<And>t. t \<in> set S \<Longrightarrow>
      0 \<le> index_cast (fst t) \<and> index_cast (fst t) < n
      \<and> 0 \<le> index_cast (fst (snd t)) \<and> index_cast (fst (snd t)) < m"
  shows "coo_matrix_init (map (snd \<circ> snd) S) (map fst S) (map (fst \<circ> snd) S) (n, m)
       = Some (COO (map (snd \<circ> snd) S) (map (index_cast \<circ> fst) S)
                   (map (index_cast \<circ> fst \<circ> snd) S) (n, m))"
  using assms by (simp add: coo_matrix_init_def Let_def list_all_iff)

section \<open>Grids up to 4096 by 4096: every number the builder stores is exact\<close>

lemma small_grid_bounds:
  fixes N :: int
  assumes "2 \<le> N" "N \<le> 4096"
  shows "N * N \<le> 2 ^ 24" "(N - 1)\<^sup>2 < 2 ^ 24" "0 \<le> (N - 1)\<^sup>2"
proof -
  have "N * N \<le> 4096 * 4096"
    by (rule mult_mono) (use assms in auto)
  then show "N * N \<le> 2 ^ 24" by simp
  have "(N - 1) * (N - 1) \<le> 4095 * 4095"
    by (rule mult_mono) (use assms in auto)
  then show "(N - 1)\<^sup>2 < 2 ^ 24" by (simp add: power2_eq_square)
  show "0 \<le> (N - 1)\<^sup>2" by simp
qed

lemma cell_entries_data:
  "t \<in> set (cell_entries N j i) \<Longrightarrow>
   snd (snd t) = 1 \<or> snd (snd t) = of_int (4 * (N - 1)\<^sup>2) \<or> snd (snd t) = of_int (- ((N - 1)\<^sup>2))"
  by (auto simp: cell_entries_def Let_def split: if_splits)

lemma entries_data:
  "t \<in> set (entries_upto N m) \<Longrightarrow>
   snd (snd t) = 1 \<or> snd (snd t) = of_int (4 * (N - 1)\<^sup>2) \<or> snd (snd t) = of_int (- ((N - 1)\<^sup>2))"
  using entries_upto_cell cell_entries_data by blast

lemma stored_exact:
  assumes N: "2 \<le> N" "N \<le> 4096" and t: "t \<in> set (entries_upto N (nat (N * N)))"
  shows "stored t = (of_int (fst t), of_int (fst (snd t)), snd (snd t))"
proof -
  note b = small_grid_bounds[OF N]
  have r: "0 \<le> fst t" "fst t < N * N" "0 \<le> fst (snd t)" "fst (snd t) < N * N"
    using entries_in_range[OF N(1) t] by auto
  have "float32 (of_int (fst t)) = of_int (fst t)"
    by (rule float32_of_int) (use r b in simp)
  moreover have "float32 (of_int (fst (snd t))) = of_int (fst (snd t))"
    by (rule float32_of_int) (use r b in simp)
  moreover have "float32 (snd (snd t)) = snd (snd t)"
  proof -
    have "float32 (of_int (4 * (N - 1)\<^sup>2)) = of_int (4 * (N - 1)\<^sup>2)"
      by (rule float32_of_int_times4) (use b in simp)
    moreover have "float32 (of_int (- ((N - 1)\<^sup>2))) = of_int (- ((N - 1)\<^sup>2))"
      by (rule float32_of_int) (use b in simp)
    ultimately show ?thesis using entries_data[OF t] by auto
  qed
  ultimately show ?thesis by (simp add: stored_def case_prod_beta)
qed

lemma discretise_poisson_entries:
  assumes "2 \<le> N" "N \<le> 4096"
  shows "discretise_poisson mem N =
     Some (COO (map (snd \<circ> snd) (entries_upto N (nat (N * N))))
               (map fst (entries_upto N (nat (N * N))))
               (map (fst \<circ> snd) (entries_upto N (nat (N * N))))
               (N\<^sup>2, N\<^sup>2),
           map (rhs_value N) [0..<nat (N * N)])"
proof -
  let ?E = "entries_upto N (nat (N * N))"
  have S: "map stored ?E = map (\<lambda>t. (of_int (fst t), of_int (fst (snd t)), snd (snd t))) ?E"
    by (rule map_cong[OF refl]) (rule stored_exact[OF assms])
  have ok: "0 \<le> index_cast (fst s) \<and> index_cast (fst s) < N\<^sup>2
      \<and> 0 \<le> index_cast (fst (snd s)) \<and> index_cast (fst (snd s)) < N\<^sup>2"
    if s: "s \<in> set (map stored ?E)" for s
  proof -
    obtain t where t: "t \<in> set ?E" "s = (of_int (fst t), of_int (fst (snd t)), snd (snd t))"
      using s unfolding S set_map by blast
    show ?thesis
      using entries_in_range[OF assms(1) t(1)] by (simp add: t(2) power2_eq_square)
  qed
  have "coo_matrix_init (map (snd \<circ> snd) (map stored ?E)) (map fst (map stored ?E))
          (map (fst \<circ> snd) (map stored ?E)) (N\<^sup>2, N\<^sup>2)
      = Some (COO (map (snd \<circ> snd) (map stored ?E)) (map (index_cast \<circ> fst) (map stored ?E))
                  (map (index_cast \<circ> fst \<circ> snd) (map stored ?E)) (N\<^sup>2, N\<^sup>2))"
    by (rule coo_matrix_init_stored) (rule ok)
  also have "\<dots> = Some (COO (map (snd \<circ> snd) ?E) (map fst ?E) (map (fst \<circ> snd) ?E) (N\<^sup>2, N\<^sup>2))"
    unfolding S by (simp add: comp_def)
  finally show ?thesis
    unfolding discretise_poisson_loops[OF assms(1)] by simp
qed

lemma nonzero_count_upto_4096:
  assumes "2 \<le> N" "N \<le> 4096"
  shows "\<exists>A f. discretise_poisson mem N = Some (A, f)
           \<and> int (nnz A) = 5 * N\<^sup>2 - 16 * N + 16
           \<and> int (length (coo_data A)) = 5 * N\<^sup>2 - 16 * N + 16
           \<and> int (length f) = N\<^sup>2"
proof -
  obtain n where N: "N = int n" and n: "2 \<le> n"
    using assms(1) by (metis nat_le_iff nat_numeral nonneg_int_cases order_trans zero_le_numeral le_cases)
  have nn: "nat (N * N) = n * n"
    by (simp add: N nat_mult_distrib)
  have total: "int (length (entries_upto N (n * n))) = 5 * N\<^sup>2 - 16 * N + 16"
    using length_entries_total[OF n] by (simp add: N)
  let ?E = "entries_upto N (n * n)"
  let ?A = "COO (map (snd \<circ> snd) ?E) (map fst ?E) (map (fst \<circ> snd) ?E) (N\<^sup>2, N\<^sup>2)"
  have "discretise_poisson mem N = Some (?A, map (rhs_value N) [0..<n * n])"
    using discretise_poisson_entries[OF assms, of mem] by (simp only: nn)
  moreover have "int (nnz ?A) = 5 * N\<^sup>2 - 16 * N + 16"
    by (simp only: nnz_entries[OF assms(1)] total)
  moreover have "int (length (coo_data ?A)) = 5 * N\<^sup>2 - 16 * N + 16"
    using total by simp
  moreover have "int (length (map (rhs_value N) [0..<n * n])) = N\<^sup>2"
    by (simp add: N power2_eq_square)
  ultimately show ?thesis by blast
qed

lemma eval_gpu_equals_sparse_operator_upto_4096:
  assumes "2 \<le> N" "N \<le> 4096" "int (length u) = N * N"
  shows "\<exists>A f y. discretise_poisson mem N = Some (A, f)
           \<and> matvec A (astype_float32 u) = Some y
           \<and> eval_gpu mem' N u = Some y \<and> int (length y) = N * N"
proof -
  let ?E = "entries_upto N (nat (N * N))"
  let ?A = "COO (map (snd \<circ> snd) ?E) (map fst ?E) (map (fst \<circ> snd) ?E) (N\<^sup>2, N\<^sup>2)"
  let ?y = "map (\<lambda>k. stencil_value N (astype_float32 u) (int k)) [0..<nat (N * N)]"
  have len: "int (length (astype_float32 u)) = N * N"
    using assms(3) by (simp add: astype_float32_def)
  have "discretise_poisson mem N = Some (?A, map (rhs_value N) [0..<nat (N * N)])"
    by (rule discretise_poisson_entries[OF assms(1,2)])
  moreover have "matvec ?A (astype_float32 u) = Some ?y"
    by (rule matvec_builder[OF assms(1) len])
  moreover have "eval_gpu mem' N u = Some ?y"
    by (rule eval_gpu_stencil[OF assms(1,3)])
  moreover have "int (length ?y) = N * N"
    by simp
  ultimately show ?thesis by blast
qed

section \<open>The grid of 4097 by 4097 points: indices that single precision cannot hold\<close>

lemma stored_index_4097:
  assumes "t \<in> set (entries_upto 4097 (nat (4097 * 4097)))"
  shows "0 \<le> index_cast (fst (stored t)) \<and> index_cast (fst (stored t)) < 16785409
     \<and> 0 \<le> index_cast (fst (snd (stored t))) \<and> index_cast (fst (snd (stored t))) < 16785409
     \<and> index_cast (fst (stored t)) \<noteq> 16777217"
proof -
  have r: "0 \<le> fst t" "fst t < 16785409" "0 \<le> fst (snd t)" "fst (snd t) < 16785409"
    using entries_in_range[OF _ assms] by auto
  obtain a where a: "float32 (of_int (fst t)) = of_int a" "0 \<le> a" "a < 16785409" "a \<noteq> 16777217"
    using float32_index_4097[OF r(1,2)] by blast
  obtain b where b: "float32 (of_int (fst (snd t))) = of_int b" "0 \<le> b" "b < 16785409"
    using float32_index_4097[OF r(3,4)] by blast
  show ?thesis
    using a b by (simp add: stored_def case_prod_beta)
qed

lemma discretise_poisson_4097:
  "discretise_poisson mem 4097 =
     Some (COO (map (snd \<circ> snd) (map stored (entries_upto 4097 (nat (4097 * 4097)))))
               (map (index_cast \<circ> fst) (map stored (entries_upto 4097 (nat (4097 * 4097)))))
               (map (index_cast \<circ> fst \<circ> snd) (map stored (entries_upto 4097 (nat (4097 * 4097)))))
               (4097\<^sup>2, 4097\<^sup>2),
           map (rhs_value 4097) [0..<nat (4097 * 4097)])"
proof -
  let ?S = "map stored (entries_upto 4097 (nat (4097 * 4097)))"
  have "coo_matrix_init (map (snd \<circ> snd) ?S) (map fst ?S) (map (fst \<circ> snd) ?S) (4097\<^sup>2, 4097\<^sup>2)
      = Some (COO (map (snd \<circ> snd) ?S) (map (index_cast \<circ> fst) ?S)
                  (map (index_cast \<circ> fst \<circ> snd) ?S) (4097\<^sup>2, 4097\<^sup>2))"
  proof (rule coo_matrix_init_stored)
    fix s assume "s \<in> set ?S"
    then obtain t where t: "t \<in> set (entries_upto 4097 (nat (4097 * 4097)))" "s = stored t"
      unfolding set_map by blast
    show "0 \<le> index_cast (fst s) \<and> index_cast (fst s) < 4097\<^sup>2
        \<and> 0 \<le> index_cast (fst (snd s)) \<and> index_cast (fst (snd s)) < 4097\<^sup>2"
      using stored_index_4097[OF t(1)] by (simp add: t(2))
  qed
  then show ?thesis
    unfolding discretise_poisson_loops[of 4097 mem, simplified] by simp
qed

lemma distinct_map_concat:
  "distinct (map g (concat xss)) \<Longrightarrow> ys \<in> set xss \<Longrightarrow> distinct (map g ys)"
  by (induction xss) auto

lemma colliding_cell_4097:
  "\<not> distinct (map (\<lambda>s. (index_cast (fst s), index_cast (fst (snd s))))
        (map stored (cell_entries 4097 4095 1)))"
  by (simp add: cell_entries_def stored_def Let_def float32_16777216 float32_16777217)

lemma colliding_positions_4097:
  "\<not> distinct (map (\<lambda>s. (index_cast (fst s), index_cast (fst (snd s))))
        (map stored (entries_upto 4097 (nat (4097 * 4097)))))"
proof
  let ?g = "\<lambda>t. (index_cast (fst (stored t)), index_cast (fst (snd (stored t))))"
  assume "distinct (map (\<lambda>s. (index_cast (fst s), index_cast (fst (snd s))))
        (map stored (entries_upto 4097 (nat (4097 * 4097)))))"
  then have d: "distinct (map ?g (concat (map (\<lambda>q. cell_entries 4097 (int q div 4097) (int q mod 4097))
        [0..<nat (4097 * 4097)])))"
    by (simp add: entries_upto_def comp_def)
  have "cell_entries 4097 (int 16777216 div 4097) (int 16777216 mod 4097)
      \<in> set (map (\<lambda>q. cell_entries 4097 (int q div 4097) (int q mod 4097)) [0..<nat (4097 * 4097)])"
    unfolding set_map by (rule imageI) simp
  then have "cell_entries 4097 4095 1
      \<in> set (map (\<lambda>q. cell_entries 4097 (int q div 4097) (int q mod 4097)) [0..<nat (4097 * 4097)])"
    by simp
  from distinct_map_concat[OF d this] colliding_cell_4097
  show False by (simp add: comp_def)
qed

lemma positions_4097:
  "length (remdups (zip
      (coo_row (COO (map (snd \<circ> snd) (map stored (entries_upto 4097 (nat (4097 * 4097)))))
            (map (index_cast \<circ> fst) (map stored (entries_upto 4097 (nat (4097 * 4097)))))
            (map (index_cast \<circ> fst \<circ> snd) (map stored (entries_upto 4097 (nat (4097 * 4097)))))
            sh))
      (coo_col (COO (map (snd \<circ> snd) (map stored (entries_upto 4097 (nat (4097 * 4097)))))
            (map (index_cast \<circ> fst) (map stored (entries_upto 4097 (nat (4097 * 4097)))))
            (map (index_cast \<circ> fst \<circ> snd) (map stored (entries_upto 4097 (nat (4097 * 4097)))))
            sh)))) < 83861509"
proof -
  let ?S = "map stored (entries_upto 4097 (nat (4097 * 4097)))"
  let ?P = "map (\<lambda>s. (index_cast (fst s), index_cast (fst (snd s)))) ?S"
  have P: "zip (map (index_cast \<circ> fst) ?S) (map (index_cast \<circ> fst \<circ> snd) ?S) = ?P"
    by (simp add: zip_map_map zip_same_conv_map)
  have "int (length (entries_upto (int 4097) (4097 * 4097))) = 5 * (int 4097)\<^sup>2 - 16 * int 4097 + 16"
    by (rule length_entries_total) simp
  then have len: "length ?P = 83861509" by simp
  have "\<not> remdups ?P = ?P"
    unfolding remdups_id_iff_distinct by (rule colliding_positions_4097)
  then have "length (remdups ?P) \<noteq> length ?P"
    unfolding length_remdups_eq .
  then have "length (remdups ?P) < length ?P"
    using length_remdups_leq[of ?P] by linarith
  then show ?thesis
    unfolding coo_matrix.sel P using len by linarith
qed

lemma nnz_le_positions: "nnz A \<le> length (remdups (zip (coo_row A) (coo_col A)))"
  unfolding nnz_def by (rule length_filter_le)

lemma empty_row_4097:
  "row_of (COO (map (snd \<circ> snd) (map stored (entries_upto 4097 (nat (4097 * 4097)))))
            (map (index_cast \<circ> fst) (map stored (entries_upto 4097 (nat (4097 * 4097)))))
            (map (index_cast \<circ> fst \<circ> snd) (map stored (entries_upto 4097 (nat (4097 * 4097)))))
            sh) 16777217 = []"
proof -
  let ?S = "map stored (entries_upto 4097 (nat (4097 * 4097)))"
  have "fst t \<noteq> 16777217"
    if t: "t \<in> set (zip (map (index_cast \<circ> fst) ?S)
              (zip (map (index_cast \<circ> fst \<circ> snd) ?S) (map (snd \<circ> snd) ?S)))" for t
  proof -
    have "fst t \<in> set (map (index_cast \<circ> fst) ?S)"
      using t by (metis prod.collapse set_zip_leftD)
    then obtain e where "e \<in> set (entries_upto 4097 (nat (4097 * 4097)))"
      "fst t = index_cast (fst (stored e))"
      by auto
    then show ?thesis using stored_index_4097 by metis
  qed
  then show ?thesis
    by (simp add: row_of_def triplets_def filter_empty_conv)
qed

lemma zip_index_cast:
  "zip (map (index_cast \<circ> fst) S) (zip (map (index_cast \<circ> fst \<circ> snd) S) (map (snd \<circ> snd) S))
     = map (\<lambda>s. (index_cast (fst s), index_cast (fst (snd s)), snd (snd s))) S"
  by (induction S) auto

lemma valid_4097:
  "coo_valid (COO (map (snd \<circ> snd) (map stored (entries_upto 4097 (nat (4097 * 4097)))))
            (map (index_cast \<circ> fst) (map stored (entries_upto 4097 (nat (4097 * 4097)))))
            (map (index_cast \<circ> fst \<circ> snd) (map stored (entries_upto 4097 (nat (4097 * 4097)))))
            (4097\<^sup>2, 4097\<^sup>2))"
proof -
  show ?thesis
    unfolding coo_valid_def triplets_def coo_matrix.sel zip_index_cast
    using stored_index_4097 by (simp add: list_all_iff)
qed

lemma unit_vector_float32:
  "astype_float32 ((replicate n 0)[k := 1]) = (replicate n 0)[k := 1]"
  by (simp add: astype_float32_def map_update)

lemma stencil_value_4097:
  "stencil_value 4097 ((replicate 16785409 0)[16777217 := 1]) 16777217 = 67108864"
proof -
  have dm: "(16777217 :: int) mod 4097 = 2" "(16777217 :: int) div 4097 = 4095"
    by simp_all
  show ?thesis
    unfolding stencil_value_def Let_def dm by simp
qed

section \<open>Grid sizes below 2\<close>

lemma discretise_poisson_nonpositive:
  assumes "N \<le> 0"
  shows "discretise_poisson mem N =
     do {
       A \<leftarrow> coo_matrix_init (np_empty mem ''data'' (5 * N\<^sup>2 - 16 * N + 16))
              (np_empty mem ''row_ind'' (5 * N\<^sup>2 - 16 * N + 16))
              (np_empty mem ''col_ind'' (5 * N\<^sup>2 - 16 * N + 16)) (N\<^sup>2, N\<^sup>2);
       Some (A, np_empty mem ''f'' (N * N))
     }"
proof -
  have r: "py_range N = []" using assms by (simp add: py_range_def)
  show ?thesis
    unfolding discretise_poisson_def Let_def r by simp
qed

lemma discretise_poisson_one:
  "discretise_poisson mem 1 =
     do {
       A \<leftarrow> coo_matrix_init (1 # tl (np_empty mem ''data'' 5))
              (0 # tl (np_empty mem ''row_ind'' 5))
              (0 # tl (np_empty mem ''col_ind'' 5)) (1, 1);
       Some (A, [0])
     }"
proof -
  have r: "py_range 1 = [0]" by (simp add: py_range_def)
  have e5: "np_empty mem name 5 = mem name 0 # tl (np_empty mem name 5)" for name
    by (simp add: np_empty_def upt_conv_Cons)
  have l5: "length (np_empty mem name 5) = 5" for name
    by (simp add: length_np_empty)
  have s: "setitem (np_empty mem name 5) 0 v = Some (v # tl (np_empty mem name 5))" for name v
    using setitem_nat[of 0 "np_empty mem name 5" v] l5[of name] e5[of name]
    by (metis list_update_code(2) of_nat_0 zero_less_numeral)
  have s1: "setitem (np_empty mem name 1) 0 v = Some [v]" for name v
    by (simp add: setitem_def np_empty_def)
  show ?thesis
    unfolding discretise_poisson_def Let_def r
    by (simp add: loop_body_def s s1)
qed

lemma np_empty_zero_mem: "np_empty zero_mem name n = replicate (nat n) 0"
  by (rule nth_equalityI) (simp_all add: np_empty_def zero_mem_def)

section \<open>The loading phase of a block\<close>

lemma shared_write_Some:
  assumes "\<And>k. s = From_global k \<Longrightarrow> 0 \<le> k \<and> k < int (length u)"
  shows "shared_write u (c, s) sm = Some (sm(c := source_value u s))"
  using assms by (cases s) (auto simp: shared_write_def source_value_def ld_Some)

lemma load_phase_last_write:
  assumes "\<And>c k. (c, From_global k) \<in> set ws \<Longrightarrow> 0 \<le> k \<and> k < int (length u)"
  shows "load_phase u ws sm =
     Some (\<lambda>c. case map_of (rev ws) c of None \<Rightarrow> sm c | Some s \<Rightarrow> source_value u s)"
  using assms
proof (induction ws arbitrary: sm)
  case Nil
  then show ?case by (simp add: load_phase_def)
next
  case (Cons w ws)
  obtain c0 s0 where w: "w = (c0, s0)" by (cases w)
  have first: "shared_write u (c0, s0) sm = Some (sm(c0 := source_value u s0))"
  proof (rule shared_write_Some)
    fix k assume "s0 = From_global k"
    then have "(c0, From_global k) \<in> set (w # ws)" using w by simp
    then show "0 \<le> k \<and> k < int (length u)" by (rule Cons.prems)
  qed
  have rest: "0 \<le> k \<and> k < int (length u)" if "(c, From_global k) \<in> set ws" for c k
  proof -
    have "(c, From_global k) \<in> set (w # ws)" using that by simp
    then show ?thesis by (rule Cons.prems)
  qed
  have "load_phase u (w # ws) sm = load_phase u ws (sm(c0 := source_value u s0))"
    using first by (simp add: load_phase_def w)
  also have "\<dots> = Some (\<lambda>c. case map_of (rev ws) c of
        None \<Rightarrow> (sm(c0 := source_value u s0)) c | Some s \<Rightarrow> source_value u s)"
    by (rule Cons.IH[OF rest])
  also have "(\<lambda>c. case map_of (rev ws) c of
        None \<Rightarrow> (sm(c0 := source_value u s0)) c | Some s \<Rightarrow> source_value u s)
      = (\<lambda>c. case map_of (rev (w # ws)) c of None \<Rightarrow> sm c | Some s \<Rightarrow> source_value u s)"
    by (rule ext) (simp add: w map_add_def split: option.split)
  finally show ?case .
qed

lemma load_phase_value:
  assumes range: "\<And>c k. (c, From_global k) \<in> set ws \<Longrightarrow> 0 \<le> k \<and> k < int (length u)"
    and some: "(c, s0) \<in> set ws"
    and all: "\<And>s. (c, s) \<in> set ws \<Longrightarrow> source_value u s = v"
  shows "\<exists>sm'. load_phase u ws sm = Some sm' \<and> sm' c = v"
proof -
  have "c \<in> fst ` set (rev ws)" using some by (force simp: image_iff)
  then obtain s where s: "map_of (rev ws) c = Some s"
    by (metis map_of_eq_None_iff not_Some_eq)
  then have "(c, s) \<in> set ws" using map_of_SomeD[OF s] by simp
  then have v: "source_value u s = v" by (rule all)
  have "load_phase u ws sm =
     Some (\<lambda>c. case map_of (rev ws) c of None \<Rightarrow> sm c | Some s \<Rightarrow> source_value u s)"
    by (rule load_phase_last_write) (rule range)
  then show ?thesis by (simp add: s v)
qed

lemma in_loading:
  "(c, s) \<in> set (loading N (i, j) (p, q)) \<longleftrightarrow>
     p < N - 2 \<and> q < N - 2 \<and>
     (c = cell (i + 1) (j + 1) \<and> s = From_global (q * (N - 2) + p)
      \<or> i = 0 \<and> p \<noteq> 0 \<and> c = cell i (j + 1) \<and> s = From_global (q * (N - 2) + p - 1)
      \<or> j = 0 \<and> q \<noteq> 0 \<and> c = cell (i + 1) j \<and> s = From_global (q * (N - 2) + p - (N - 2))
      \<or> i = SX - 1 \<and> p \<noteq> (N - 2) - 1 \<and> c = cell (- 1) (j + 1) \<and> s = From_global (q * (N - 2) + p + 1)
      \<or> j = SY - 1 \<and> q \<noteq> (N - 2) - 1 \<and> c = cell (i + 1) (- 1) \<and> s = From_global (q * (N - 2) + p + (N - 2))
      \<or> p = 0 \<and> c = cell i (j + 1) \<and> s = Float32_zero
      \<or> q = 0 \<and> c = cell (i + 1) j \<and> s = Float32_zero
      \<or> p = (N - 2) - 1 \<and> c = cell (i + 2) (j + 1) \<and> s = Float32_zero
      \<or> q = (N - 2) - 1 \<and> c = cell (i + 1) (j + 2) \<and> s = Float32_zero)"
  by (auto simp: loading_def Let_def)

lemma in_block_loading:
  "(c, s) \<in> set (block_loading N (32, 32) (bi, bj)) \<longleftrightarrow>
     (\<exists>i j. 0 \<le> i \<and> i < 32 \<and> 0 \<le> j \<and> j < 32
        \<and> (c, s) \<in> set (loading N (i, j) (bi * 32 + i, bj * 32 + j)))"
  by (auto simp: block_loading_def set_block_threads cuda_grid_def)

lemma interior_neighbours_in_range:
  fixes p q M :: int
  assumes "0 \<le> p" "p < M" "0 \<le> q" "q < M"
  shows "0 \<le> q * M + p" "q * M + p < M * M"
    "p \<noteq> 0 \<Longrightarrow> 0 \<le> q * M + p - 1"
    "p \<noteq> M - 1 \<Longrightarrow> q * M + p + 1 < M * M"
    "q \<noteq> 0 \<Longrightarrow> 0 \<le> q * M + p - M"
    "q \<noteq> M - 1 \<Longrightarrow> q * M + p + M < M * M"
proof -
  show k: "0 \<le> q * M + p" "q * M + p < M * M" using flat_bounds[OF assms] by auto
  have qM: "0 \<le> q * M" using assms by simp
  show "0 \<le> q * M + p - 1" if "p \<noteq> 0" using that assms qM by linarith
  show "q * M + p + 1 < M * M" if "p \<noteq> M - 1"
  proof -
    have "q * M + (p + 1) < M * M" by (rule flat_bounds(2)) (use that assms in auto)
    then show ?thesis by simp
  qed
  show "0 \<le> q * M + p - M" if "q \<noteq> 0"
  proof -
    have "0 \<le> (q - 1) * M + p" by (rule flat_bounds(1)) (use that assms in auto)
    then show ?thesis by (simp add: algebra_simps)
  qed
  show "q * M + p + M < M * M" if "q \<noteq> M - 1"
  proof -
    have "(q + 1) * M + p < M * M" by (rule flat_bounds(2)) (use that assms in auto)
    then show ?thesis by (simp add: algebra_simps)
  qed
qed

lemma loading_in_range:
  assumes "0 \<le> p" "0 \<le> q" "(c, From_global k) \<in> set (loading N (i, j) (p, q))"
  shows "0 \<le> k \<and> k < (N - 2) * (N - 2)"
proof -
  from assms(3) have act: "p < N - 2" "q < N - 2" by (simp_all add: in_loading)
  note r = interior_neighbours_in_range[OF assms(1) act(1) assms(2) act(2)]
  from assms(3) consider
      "k = q * (N - 2) + p"
    | "p \<noteq> 0" "k = q * (N - 2) + p - 1"
    | "q \<noteq> 0" "k = q * (N - 2) + p - (N - 2)"
    | "p \<noteq> (N - 2) - 1" "k = q * (N - 2) + p + 1"
    | "q \<noteq> (N - 2) - 1" "k = q * (N - 2) + p + (N - 2)"
    unfolding in_loading by blast
  then show ?thesis
  proof cases
    case 1 then show ?thesis using r(1,2) by linarith
  next
    case 2 then show ?thesis using r(2,3) by linarith
  next
    case 3 then show ?thesis using r(2,5) assms(1) act(1) by linarith
  next
    case 4 then show ?thesis using r(1,4) by linarith
  next
    case 5 then show ?thesis using r(1,6) assms(1) act(1) by linarith
  qed
qed

lemma block_loading_in_range:
  assumes "0 \<le> bi" "0 \<le> bj" "(c, From_global k) \<in> set (block_loading N (32, 32) (bi, bj))"
  shows "0 \<le> k \<and> k < (N - 2) * (N - 2)"
proof -
  obtain i j where "0 \<le> i" "0 \<le> j"
    and "(c, From_global k) \<in> set (loading N (i, j) (bi * 32 + i, bj * 32 + j))"
    using assms(3) unfolding in_block_loading by blast
  then show ?thesis using assms(1,2) by (intro loading_in_range[of _ _ c k N i j]) auto
qed

section \<open>What the five cells of a thread hold at the barrier\<close>

lemmas tile_simps = cell_def haloSX_def haloSY_def SX_def SY_def source_value_def

lemma centre_value:
  assumes sb: "same_block (i, j) (p, q) (i', j') (p', q')"
    and a: "p < N - 2" "q < N - 2"
    and w: "(cell (i + 1) (j + 1), s) \<in> set (loading N (i', j') (p', q'))"
  shows "source_value u s = u ! nat (q * (N - 2) + p)"
  using w sb a unfolding in_loading same_block_def
  by (auto simp: tile_simps)

lemma down_value:
  assumes sb: "same_block (i, j) (p, q) (i', j') (p', q')"
    and a: "p < N - 2" "q < N - 2"
    and w: "(cell i (j + 1), s) \<in> set (loading N (i', j') (p', q'))"
  shows "source_value u s = (if p = 0 then 0 else u ! nat (q * (N - 2) + p - 1))"
  using w sb a unfolding in_loading same_block_def
  by (auto simp: tile_simps algebra_simps)

lemma up_value:
  assumes sb: "same_block (i, j) (p, q) (i', j') (p', q')"
    and a: "p < N - 2" "q < N - 2"
    and w: "(cell (i + 2) (j + 1), s) \<in> set (loading N (i', j') (p', q'))"
  shows "source_value u s = (if p = (N - 2) - 1 then 0 else u ! nat (q * (N - 2) + p + 1))"
  using w sb a unfolding in_loading same_block_def
  by (auto simp: tile_simps algebra_simps)

lemma left_value:
  assumes sb: "same_block (i, j) (p, q) (i', j') (p', q')"
    and a: "p < N - 2" "q < N - 2"
    and w: "(cell (i + 1) j, s) \<in> set (loading N (i', j') (p', q'))"
  shows "source_value u s = (if q = 0 then 0 else u ! nat (q * (N - 2) + p - (N - 2)))"
  using w sb a unfolding in_loading same_block_def
  by (auto simp: tile_simps algebra_simps)

lemma right_value:
  assumes sb: "same_block (i, j) (p, q) (i', j') (p', q')"
    and a: "p < N - 2" "q < N - 2"
    and w: "(cell (i + 1) (j + 2), s) \<in> set (loading N (i', j') (p', q'))"
  shows "source_value u s = (if q = (N - 2) - 1 then 0 else u ! nat (q * (N - 2) + p + (N - 2)))"
  using w sb a unfolding in_loading same_block_def
  by (auto simp: tile_simps algebra_simps)

lemma in_block_loadingI:
  assumes "0 \<le> i" "i < 32" "0 \<le> j" "j < 32"
    and "(c, s) \<in> set (loading N (i, j) (bi * 32 + i, bj * 32 + j))"
  shows "(c, s) \<in> set (block_loading N (32, 32) (bi, bj))"
  unfolding in_block_loading using assms by blast

lemma same_block_threads:
  assumes "0 \<le> bi" "0 \<le> bj" "0 \<le> i" "i < 32" "0 \<le> j" "j < 32"
    "0 \<le> i'" "i' < 32" "0 \<le> j'" "j' < 32"
  shows "same_block (i, j) (bi * 32 + i, bj * 32 + j) (i', j') (bi * 32 + i', bj * 32 + j')"
  using assms by (simp add: same_block_def)

lemma cells_written:
  assumes t: "0 \<le> i" "i < 32" "0 \<le> j" "j < 32"
    and a: "bi * 32 + i < N - 2" "bj * 32 + j < N - 2"
  shows "\<exists>s. (cell (i + 1) (j + 1), s) \<in> set (block_loading N (32, 32) (bi, bj))"
    and "\<exists>s. (cell i (j + 1), s) \<in> set (block_loading N (32, 32) (bi, bj))"
    and "\<exists>s. (cell (i + 2) (j + 1), s) \<in> set (block_loading N (32, 32) (bi, bj))"
    and "\<exists>s. (cell (i + 1) j, s) \<in> set (block_loading N (32, 32) (bi, bj))"
    and "\<exists>s. (cell (i + 1) (j + 2), s) \<in> set (block_loading N (32, 32) (bi, bj))"
proof -
  let ?B = "set (block_loading N (32, 32) (bi, bj))"
  let ?p = "bi * 32 + i" and ?q = "bj * 32 + j"
  have self: "(c, s) \<in> ?B" if "(c, s) \<in> set (loading N (i, j) (?p, ?q))" for c s
    using in_block_loadingI[OF t that] .
  show "\<exists>s. (cell (i + 1) (j + 1), s) \<in> ?B"
    using self[of "cell (i + 1) (j + 1)" "From_global (?q * (N - 2) + ?p)"] a
    by (auto simp: in_loading)
  show "\<exists>s. (cell i (j + 1), s) \<in> ?B"
  proof (cases "i = 0")
    case True
    then show ?thesis
      using self[of "cell i (j + 1)" "From_global (?q * (N - 2) + ?p - 1)"]
        self[of "cell i (j + 1)" Float32_zero] a
      by (cases "?p = 0") (auto simp: in_loading)
  next
    case False
    have "(cell i (j + 1), From_global (?q * (N - 2) + (bi * 32 + (i - 1))))
        \<in> set (loading N (i - 1, j) (bi * 32 + (i - 1), ?q))"
      using a by (simp add: in_loading)
    then have "(cell i (j + 1), From_global (?q * (N - 2) + (bi * 32 + (i - 1)))) \<in> ?B"
      by (intro in_block_loadingI[of "i - 1" j]) (use t False in auto)
    then show ?thesis ..
  qed
  show "\<exists>s. (cell (i + 2) (j + 1), s) \<in> ?B"
  proof (cases "?p = (N - 2) - 1 \<or> i = 31")
    case True
    then show ?thesis
      using self[of "cell (i + 2) (j + 1)" "From_global (?q * (N - 2) + ?p + 1)"]
        self[of "cell (i + 2) (j + 1)" Float32_zero] a
      by (cases "?p = (N - 2) - 1") (auto simp: in_loading tile_simps)
  next
    case False
    have "(cell (i + 2) (j + 1), From_global (?q * (N - 2) + (bi * 32 + (i + 1))))
        \<in> set (loading N (i + 1, j) (bi * 32 + (i + 1), ?q))"
      using a False by (simp add: in_loading add.assoc)
    then have "(cell (i + 2) (j + 1), From_global (?q * (N - 2) + (bi * 32 + (i + 1)))) \<in> ?B"
      by (intro in_block_loadingI[of "i + 1" j]) (use t False in auto)
    then show ?thesis ..
  qed
  show "\<exists>s. (cell (i + 1) j, s) \<in> ?B"
  proof (cases "j = 0")
    case True
    then show ?thesis
      using self[of "cell (i + 1) j" "From_global (?q * (N - 2) + ?p - (N - 2))"]
        self[of "cell (i + 1) j" Float32_zero] a
      by (cases "?q = 0") (auto simp: in_loading)
  next
    case False
    have "(cell (i + 1) j, From_global ((bj * 32 + (j - 1)) * (N - 2) + ?p))
        \<in> set (loading N (i, j - 1) (?p, bj * 32 + (j - 1)))"
      using a by (simp add: in_loading)
    then have "(cell (i + 1) j, From_global ((bj * 32 + (j - 1)) * (N - 2) + ?p)) \<in> ?B"
      by (intro in_block_loadingI[of i "j - 1"]) (use t False in auto)
    then show ?thesis ..
  qed
  show "\<exists>s. (cell (i + 1) (j + 2), s) \<in> ?B"
  proof (cases "?q = (N - 2) - 1 \<or> j = 31")
    case True
    then show ?thesis
      using self[of "cell (i + 1) (j + 2)" "From_global (?q * (N - 2) + ?p + (N - 2))"]
        self[of "cell (i + 1) (j + 2)" Float32_zero] a
      by (cases "?q = (N - 2) - 1") (auto simp: in_loading tile_simps)
  next
    case False
    have "(cell (i + 1) (j + 2), From_global ((bj * 32 + (j + 1)) * (N - 2) + ?p))
        \<in> set (loading N (i, j + 1) (?p, bj * 32 + (j + 1)))"
      using a False by (simp add: in_loading add.assoc)
    then have "(cell (i + 1) (j + 2), From_global ((bj * 32 + (j + 1)) * (N - 2) + ?p)) \<in> ?B"
      by (intro in_block_loadingI[of i "j + 1"]) (use t False in auto)
    then show ?thesis ..
  qed
qed

lemma block_writes_in_range:
  assumes b: "0 \<le> bi" "0 \<le> bj" and len: "int (length u) = (N - 2) * (N - 2)"
    and ws: "set ws = set (block_loading N (32, 32) (bi, bj))"
    and w: "(c, From_global k) \<in> set ws"
  shows "0 \<le> k \<and> k < int (length u)"
  using block_loading_in_range[OF b, of c k N] w ws len by simp

lemma load_phase_runs:
  assumes b: "0 \<le> bi" "0 \<le> bj" and len: "int (length u) = (N - 2) * (N - 2)"
    and ws: "set ws = set (block_loading N (32, 32) (bi, bj))"
  shows "\<exists>sm'. load_phase u ws sm = Some sm'"
proof -
  have "load_phase u ws sm =
     Some (\<lambda>c. case map_of (rev ws) c of None \<Rightarrow> sm c | Some s \<Rightarrow> source_value u s)"
    by (rule load_phase_last_write) (rule block_writes_in_range[OF b len ws])
  then show ?thesis by simp
qed

lemma loaded_cell:
  assumes b: "0 \<le> bi" "0 \<le> bj" and len: "int (length u) = (N - 2) * (N - 2)"
    and ws: "set ws = set (block_loading N (32, 32) (bi, bj))"
    and run: "load_phase u ws sm = Some sm'"
    and some: "\<exists>s. (c, s) \<in> set (block_loading N (32, 32) (bi, bj))"
    and all: "\<And>i' j' s. 0 \<le> i' \<Longrightarrow> i' < 32 \<Longrightarrow> 0 \<le> j' \<Longrightarrow> j' < 32 \<Longrightarrow>
        (c, s) \<in> set (loading N (i', j') (bi * 32 + i', bj * 32 + j')) \<Longrightarrow> source_value u s = v"
  shows "sm' c = v"
proof -
  obtain s0 where s0: "(c, s0) \<in> set ws" using some ws by auto
  have "\<exists>sm''. load_phase u ws sm = Some sm'' \<and> sm'' c = v"
  proof (rule load_phase_value[OF _ s0])
    show "0 \<le> k \<and> k < int (length u)" if "(c, From_global k) \<in> set ws" for c k
      using that by (rule block_writes_in_range[OF b len ws])
    show "source_value u s = v" if "(c, s) \<in> set ws" for s
    proof -
      have "(c, s) \<in> set (block_loading N (32, 32) (bi, bj))" using that ws by simp
      then obtain i' j' where "0 \<le> i'" "i' < 32" "0 \<le> j'" "j' < 32"
        "(c, s) \<in> set (loading N (i', j') (bi * 32 + i', bj * 32 + j'))"
        unfolding in_block_loading by blast
      then show ?thesis by (rule all)
    qed
  qed
  then show ?thesis using run by auto
qed

lemma loaded_cells:
  assumes b: "0 \<le> bi" "0 \<le> bj" and len: "int (length u) = (N - 2) * (N - 2)"
    and ws: "set ws = set (block_loading N (32, 32) (bi, bj))"
    and run: "load_phase u ws sm = Some sm'"
    and t: "0 \<le> i" "i < 32" "0 \<le> j" "j < 32"
    and a: "bi * 32 + i < N - 2" "bj * 32 + j < N - 2"
  shows "sm' (cell (i + 1) (j + 1)) = u ! nat ((bj * 32 + j) * (N - 2) + (bi * 32 + i))"
    and "sm' (cell i (j + 1)) =
           (if bi * 32 + i = 0 then 0 else u ! nat ((bj * 32 + j) * (N - 2) + (bi * 32 + i) - 1))"
    and "sm' (cell (i + 2) (j + 1)) =
           (if bi * 32 + i = (N - 2) - 1 then 0
            else u ! nat ((bj * 32 + j) * (N - 2) + (bi * 32 + i) + 1))"
    and "sm' (cell (i + 1) j) =
           (if bj * 32 + j = 0 then 0
            else u ! nat ((bj * 32 + j) * (N - 2) + (bi * 32 + i) - (N - 2)))"
    and "sm' (cell (i + 1) (j + 2)) =
           (if bj * 32 + j = (N - 2) - 1 then 0
            else u ! nat ((bj * 32 + j) * (N - 2) + (bi * 32 + i) + (N - 2)))"
proof -
  note sb = same_block_threads[OF b t]
  note cw = cells_written[OF t a]
  show "sm' (cell (i + 1) (j + 1)) = u ! nat ((bj * 32 + j) * (N - 2) + (bi * 32 + i))"
    by (rule loaded_cell[OF b len ws run cw(1)]) (rule centre_value[OF sb a])
  show "sm' (cell i (j + 1)) =
           (if bi * 32 + i = 0 then 0 else u ! nat ((bj * 32 + j) * (N - 2) + (bi * 32 + i) - 1))"
    by (rule loaded_cell[OF b len ws run cw(2)]) (rule down_value[OF sb a])
  show "sm' (cell (i + 2) (j + 1)) =
           (if bi * 32 + i = (N - 2) - 1 then 0
            else u ! nat ((bj * 32 + j) * (N - 2) + (bi * 32 + i) + 1))"
    by (rule loaded_cell[OF b len ws run cw(3)]) (rule up_value[OF sb a])
  show "sm' (cell (i + 1) j) =
           (if bj * 32 + j = 0 then 0
            else u ! nat ((bj * 32 + j) * (N - 2) + (bi * 32 + i) - (N - 2)))"
    by (rule loaded_cell[OF b len ws run cw(4)]) (rule left_value[OF sb a])
  show "sm' (cell (i + 1) (j + 2)) =
           (if bj * 32 + j = (N - 2) - 1 then 0
            else u ! nat ((bj * 32 + j) * (N - 2) + (bi * 32 + i) + (N - 2)))"
    by (rule loaded_cell[OF b len ws run cw(5)]) (rule right_value[OF sb a])
qed

section \<open>The kernel with shared memory computes the stencil on the interior\<close>

lemma tiled_value_at:
  assumes "0 \<le> p" "p < N - 2"
  shows "tiled_value N omega u (q * (N - 2) + p) =
     of_int ((N - 1)\<^sup>2) *
       (4 * u ! nat (q * (N - 2) + p)
        - (if p = (N - 2) - 1 then 0 else u ! nat (q * (N - 2) + p + 1))
        - (if p = 0 then 0 else u ! nat (q * (N - 2) + p - 1))
        - (if q = 0 then 0 else u ! nat (q * (N - 2) + p - (N - 2)))
        - (if q = (N - 2) - 1 then 0 else u ! nat (q * (N - 2) + p + (N - 2))))
     + omega\<^sup>2 * u ! nat (q * (N - 2) + p)"
  unfolding tiled_value_def Let_def flat_div_mod[OF assms] by simp

lemma compute_thread:
  assumes b: "0 \<le> bi" "0 \<le> bj" and len: "int (length u) = (N - 2) * (N - 2)"
    and lenf: "int (length f) = (N - 2) * (N - 2)"
    and ws: "set ws = set (block_loading N (32, 32) (bi, bj))"
    and run: "load_phase u ws sm = Some sm'"
    and t: "t \<in> set (block_threads (32, 32))"
  shows "\<exists>f'. compute_phase N omega sm' t (cuda_grid (32, 32) ((bi, bj), t)) f = Some f'
      \<and> length f' = length f
      \<and> (\<forall>k<length f. f' ! k = (if k \<in> written_index N ((bi, bj), t)
                                 then tiled_value N omega u (int k) else f ! k))"
proof -
  obtain i j where ij: "t = (i, j)" by (cases t)
  have tr: "0 \<le> i" "i < 32" "0 \<le> j" "j < 32"
    using t by (simp_all add: ij set_block_threads)
  let ?p = "bi * 32 + i" and ?q = "bj * 32 + j"
  have g: "cuda_grid (32, 32) ((bi, bj), (i, j)) = (?p, ?q)"
    by (simp add: cuda_grid_def)
  show ?thesis
  proof (cases "?p < N - 2 \<and> ?q < N - 2")
    case False
    then show ?thesis
      unfolding ij g by (auto simp: compute_phase_def written_index_def g)
  next
    case True
    then have a: "?p < N - 2" "?q < N - 2" by auto
    have pq: "0 \<le> ?p" "0 \<le> ?q" using b tr by auto
    let ?k = "?q * (N - 2) + ?p"
    have k: "0 \<le> ?k" "?k < (N - 2) * (N - 2)"
      using interior_neighbours_in_range(1,2)[OF pq(1) a(1) pq(2) a(2)] by auto
    note c = loaded_cells[OF b len ws run tr a]
    have "compute_phase N omega sm' (i, j) (?p, ?q) f = Some (f[nat ?k := tiled_value N omega u ?k])"
      unfolding compute_phase_def using a k
      by (simp add: Let_def c tiled_value_at[OF pq(1) a(1)] st_Some lenf)
    moreover have "written_index N ((bi, bj), (i, j)) = {nat ?k}"
      using a by (simp add: written_index_def g)
    ultimately show ?thesis
      unfolding ij g using k by (auto simp: nth_list_update)
  qed
qed

lemma block_kernel:
  assumes b: "0 \<le> bi" "0 \<le> bj" and len: "int (length u) = (N - 2) * (N - 2)"
    and lenf: "int (length f) = (N - 2) * (N - 2)"
  shows "\<exists>f'. (do {
            local_u \<leftarrow> load_phase u (block_loading N (32, 32) (bi, bj)) sm;
            for_each (block_threads (32, 32))
              (\<lambda>t. compute_phase N omega local_u t (cuda_grid (32, 32) ((bi, bj), t))) f
          }) = Some f'
      \<and> length f' = length f
      \<and> (\<forall>k<length f. f' ! k =
            (if k \<in> (\<Union>t\<in>set (block_threads (32, 32)). written_index N ((bi, bj), t))
             then tiled_value N omega u (int k) else f ! k))"
proof -
  obtain sm' where run: "load_phase u (block_loading N (32, 32) (bi, bj)) sm = Some sm'"
    using load_phase_runs[OF b len refl] by blast
  have "\<exists>f'. for_each (block_threads (32, 32))
              (\<lambda>t. compute_phase N omega sm' t (cuda_grid (32, 32) ((bi, bj), t))) f = Some f'
      \<and> length f' = length f
      \<and> (\<forall>k<length f. f' ! k =
            (if k \<in> (\<Union>t\<in>set (block_threads (32, 32)). written_index N ((bi, bj), t))
             then tiled_value N omega u (int k) else f ! k))"
  proof (rule for_each_writes[OF _ refl])
    fix t and s :: "real list"
    assume t: "t \<in> set (block_threads (32, 32))" and s: "length s = length f"
    have "int (length s) = (N - 2) * (N - 2)" using s lenf by simp
    from compute_thread[OF b len this refl run t, of omega]
    show "\<exists>s'. compute_phase N omega sm' t (cuda_grid (32, 32) ((bi, bj), t)) s = Some s'
        \<and> length s' = length f
        \<and> (\<forall>k<length f. s' ! k = (if k \<in> written_index N ((bi, bj), t)
                                 then tiled_value N omega u (int k) else s ! k))"
      unfolding s .
  qed
  then show ?thesis by (simp add: run)
qed

lemma interior_covered:
  assumes N: "2 \<le> N" and k: "k < nat ((N - 2) * (N - 2))"
  shows "k \<in> (\<Union>b\<in>set (grid_blocks ((N - 2 + 31) div 32, (N - 2 + 31) div 32)).
                \<Union>t\<in>set (block_threads (32, 32)). written_index N (b, t))"
proof -
  let ?M = "N - 2"
  have kk: "int k < ?M * ?M" using k by simp
  have M0: "0 < ?M"
  proof (rule ccontr)
    assume "\<not> 0 < ?M"
    then have "?M = 0" using N by simp
    then show False using k by simp
  qed
  have p: "0 \<le> int k mod ?M" "int k mod ?M < ?M" using M0 by simp_all
  have q: "0 \<le> int k div ?M" using M0 by (simp add: pos_imp_zdiv_nonneg_iff)
  have e: "int k div ?M * ?M + int k mod ?M = int k" by (rule div_mult_mod_eq)
  then have "int k div ?M * ?M \<le> int k" using p(1) by linarith
  then have "int k div ?M * ?M < ?M * ?M" using kk by simp
  then have q2: "int k div ?M < ?M" using M0 by simp
  let ?b = "((int k mod ?M) div 32, (int k div ?M) div 32)"
  let ?t = "((int k mod ?M) mod 32, (int k div ?M) mod 32)"
  have "?b \<in> set (grid_blocks ((?M + 31) div 32, (?M + 31) div 32))"
    using grid_covers[OF p] grid_covers[OF q q2] by (simp add: set_grid_blocks)
  moreover have "?t \<in> set (block_threads (32, 32))"
    by (simp add: set_block_threads)
  moreover have "cuda_grid (32, 32) (?b, ?t) = (int k mod ?M, int k div ?M)"
    by (simp add: cuda_grid_def)
  then have "k \<in> written_index N (?b, ?t)"
    unfolding written_index_def using p q2 by (simp add: e)
  ultimately show ?thesis by blast
qed

lemma launch_tiled_value:
  assumes N: "2 \<le> N" and len: "int (length u) = (N - 2) * (N - 2)"
  shows "discretise_poisson_gpu_2 sh ((N - 2 + 31) div 32, (N - 2 + 31) div 32) (32, 32) u
           (np_empty mem ''f'' ((N - 2)\<^sup>2)) omega N =
     Some (map (\<lambda>k. tiled_value N omega u (int k)) [0..<nat ((N - 2) * (N - 2))])"
proof -
  let ?n = "nat ((N - 2) * (N - 2))"
  let ?f = "np_empty mem ''f'' ((N - 2)\<^sup>2)"
  let ?g = "((N - 2 + 31) div 32, (N - 2 + 31) div 32)"
  let ?body = "\<lambda>b f. do {
          local_u \<leftarrow> load_phase u (block_loading N (32, 32) b) (sh b);
          for_each (block_threads (32, 32))
            (\<lambda>t. compute_phase N omega local_u t (cuda_grid (32, 32) (b, t))) f
        }"
  have lenf: "length ?f = ?n" by (simp add: length_np_empty power2_eq_square)
  have nn: "int ?n = (N - 2) * (N - 2)" by simp
  have "\<exists>s'. for_each (grid_blocks ?g) ?body ?f = Some s' \<and> length s' = ?n
      \<and> (\<forall>k<?n. s' ! k =
           (if k \<in> (\<Union>b\<in>set (grid_blocks ?g). \<Union>t\<in>set (block_threads (32, 32)). written_index N (b, t))
            then tiled_value N omega u (int k) else ?f ! k))"
  proof (rule for_each_writes[OF _ lenf])
    fix b and s :: "real list"
    assume b: "b \<in> set (grid_blocks ?g)" and s: "length s = ?n"
    obtain bi bj where bb: "b = (bi, bj)" by (cases b)
    have pos: "0 \<le> bi" "0 \<le> bj" using b by (simp_all add: bb set_grid_blocks)
    have "int (length s) = (N - 2) * (N - 2)" using s nn by simp
    from block_kernel[OF pos len this, of "sh b" omega]
    show "\<exists>s'. ?body b s = Some s' \<and> length s' = ?n
        \<and> (\<forall>k<?n. s' ! k = (if k \<in> (\<Union>t\<in>set (block_threads (32, 32)). written_index N (b, t))
                              then tiled_value N omega u (int k) else s ! k))"
      unfolding bb s .
  qed
  then obtain s' where run: "for_each (grid_blocks ?g) ?body ?f = Some s'"
    and l: "length s' = ?n"
    and v: "\<forall>k<?n. s' ! k =
           (if k \<in> (\<Union>b\<in>set (grid_blocks ?g). \<Union>t\<in>set (block_threads (32, 32)). written_index N (b, t))
            then tiled_value N omega u (int k) else ?f ! k)"
    by blast
  have "s' = map (\<lambda>k. tiled_value N omega u (int k)) [0..<?n]"
    by (rule nth_equalityI) (use l v interior_covered[OF N] in auto)
  then show ?thesis
    using run by (simp add: discretise_poisson_gpu_2_def)
qed

lemma eval_gpu_2_tiled_value:
  assumes N: "2 \<le> N" and len: "int (length u) = (N - 2) * (N - 2)"
  shows "eval_gpu_2 sh mem N omega u =
     Some (map (\<lambda>k. tiled_value N omega (astype_float32 u) (int k)) [0..<nat ((N - 2) * (N - 2))])"
proof -
  have "int (length (astype_float32 u)) = (N - 2) * (N - 2)"
    using len by (simp add: astype_float32_def)
  from launch_tiled_value[OF N this] show ?thesis
    by (simp add: eval_gpu_2_def Let_def)
qed

section \<open>The interior of the padded product\<close>







section \<open>Edges and corners of the shared array\<close>

lemma edge_cells_only_zeroed:
  assumes sb: "same_block (i, j) (p, q) (i', j') (p', q')"
    and a: "p < N - 2" "q < N - 2"
  shows "p = 0 \<Longrightarrow> (cell i (j + 1), s) \<in> set (loading N (i', j') (p', q')) \<Longrightarrow> s = Float32_zero"
    and "q = 0 \<Longrightarrow> (cell (i + 1) j, s) \<in> set (loading N (i', j') (p', q')) \<Longrightarrow> s = Float32_zero"
    and "p = (N - 2) - 1 \<Longrightarrow> (cell (i + 2) (j + 1), s) \<in> set (loading N (i', j') (p', q')) \<Longrightarrow> s = Float32_zero"
    and "q = (N - 2) - 1 \<Longrightarrow> (cell (i + 1) (j + 2), s) \<in> set (loading N (i', j') (p', q')) \<Longrightarrow> s = Float32_zero"
  using sb a unfolding in_loading same_block_def
  by (auto simp: tile_simps)

lemma corners_not_written:
  assumes "0 \<le> i" "i < 32" "0 \<le> j" "j < 32" "(c, s) \<in> set (loading N (i, j) (p, q))"
  shows "c \<notin> set halo_corners"
  using assms unfolding in_loading
  by (auto simp: tile_simps halo_corners_def)

lemma corners_not_read:
  assumes "0 \<le> i" "i < 32" "0 \<le> j" "j < 32"
  shows "set (stencil_cells (i, j)) \<inter> set halo_corners = {}"
  using assms by (auto simp: stencil_cells_def halo_corners_def tile_simps)

lemma compute_phase_reads:
  assumes "\<forall>c\<in>set (stencil_cells t). sm c = sm' c"
  shows "compute_phase N omega sm t pq f = compute_phase N omega sm' t pq f"
  using assms by (cases t; cases pq) (simp add: compute_phase_def stencil_cells_def Let_def)

section \<open>Claims about the sparse operator\<close>

text \<open>
  C3, at the grid size 4097. The notebook derives \<open>5 N\<^sup>2 - 16 N + 16\<close> nonzero entries, which
  is 83861509 here, and the builder fills that many slots and returns. But it keeps the row
  and column indices in arrays of \<^verbatim>\<open>float32\<close>, and single precision holds no odd integer above
  \<open>2\<^sup>2\<^sup>4 = 16777216\<close>. At the grid point \<open>k = 16777216\<close> the column \<open>k + 1\<close> is stored as \<open>k\<close>, so
  the triplets for \<open>(k, k)\<close> and \<open>(k, k + 1)\<close> land on one position of the matrix. The matrix
  that the builder returns has fewer than 83861509 positions, and so fewer than 83861509
  positions with a nonzero coefficient. The right-hand side still has length \<open>N\<^sup>2\<close>.
\<close>

theorem discretise_poisson_nonzero_count_4097:
  "\<exists>A f. discretise_poisson mem 4097 = Some (A, f)
     \<and> int (length (coo_data A)) = 5 * 4097\<^sup>2 - 16 * 4097 + 16
     \<and> int (length (remdups (zip (coo_row A) (coo_col A)))) < 5 * 4097\<^sup>2 - 16 * 4097 + 16
     \<and> int (nnz A) < 5 * 4097\<^sup>2 - 16 * 4097 + 16
     \<and> int (length f) = 4097\<^sup>2"
proof -
  let ?S = "map stored (entries_upto 4097 (nat (4097 * 4097)))"
  let ?A = "COO (map (snd \<circ> snd) ?S) (map (index_cast \<circ> fst) ?S)
              (map (index_cast \<circ> fst \<circ> snd) ?S) (4097\<^sup>2, 4097\<^sup>2)"
  have "int (length (entries_upto (int 4097) (4097 * 4097))) = 5 * (int 4097)\<^sup>2 - 16 * int 4097 + 16"
    by (rule length_entries_total) simp
  then have "int (length (coo_data ?A)) = 5 * 4097\<^sup>2 - 16 * 4097 + 16"
    by simp
  moreover have p: "int (length (remdups (zip (coo_row ?A) (coo_col ?A)))) < 5 * 4097\<^sup>2 - 16 * 4097 + 16"
    using positions_4097[of "(4097\<^sup>2, 4097\<^sup>2)"] by simp
  moreover have "int (nnz ?A) < 5 * 4097\<^sup>2 - 16 * 4097 + 16"
    using nnz_le_positions[of ?A] p by linarith
  moreover have "int (length (map (rhs_value 4097) [0..<nat (4097 * 4097)])) = 4097\<^sup>2"
    by simp
  ultimately show ?thesis
    using discretise_poisson_4097[of mem] by blast
qed

text \<open>
  C4, as the code has it. The builder takes the grid size only: there is no \<open>\<omega>\<close>, and the
  centre coefficient is \<open>4 (N - 1)\<^sup>2\<close>. For a grid size \<open>N\<close> from 2 to 4096 and a flat index
  \<open>k = j N + i\<close>: on the boundary the row \<open>k\<close> of the matrix is the single triplet \<open>(k, k, 1)\<close>
  and \<open>f[k] = 0\<close>; in the interior it is the five triplets \<open>(k, k, 4 (N - 1)\<^sup>2)\<close>,
  \<open>(k, k + 1, - (N - 1)\<^sup>2)\<close>, \<open>(k, k - 1, - (N - 1)\<^sup>2)\<close>, \<open>(k, k + N, - (N - 1)\<^sup>2)\<close>,
  \<open>(k, k - N, - (N - 1)\<^sup>2)\<close>, in this order, and \<open>f[k] = 1\<close>. Above 4096 the arrays of single
  precision cannot hold every index, and nothing is said here about those grids.
\<close>

theorem discretise_poisson_rows:
  assumes "2 \<le> N" "N \<le> 4096" "0 \<le> k" "k < N\<^sup>2"
  shows "\<exists>A f. discretise_poisson mem N = Some (A, f) \<and>
     (let i = k mod N; j = k div N in
      if i = 0 \<or> i = N - 1 \<or> j = 0 \<or> j = N - 1
      then row_of A k = [(k, k, 1)] \<and> f ! nat k = 0
      else row_of A k =
             [(k, k, of_int (4 * (N - 1)\<^sup>2)),
              (k, k + 1, of_int (- ((N - 1)\<^sup>2))),
              (k, k - 1, of_int (- ((N - 1)\<^sup>2))),
              (k, k + N, of_int (- ((N - 1)\<^sup>2))),
              (k, k - N, of_int (- ((N - 1)\<^sup>2)))]
           \<and> f ! nat k = 1)"
proof -
  let ?E = "entries_upto N (nat (N * N))"
  let ?A = "COO (map (snd \<circ> snd) ?E) (map fst ?E) (map (fst \<circ> snd) ?E) (N\<^sup>2, N\<^sup>2)"
  let ?f = "map (rhs_value N) [0..<nat (N * N)]"
  have run: "discretise_poisson mem N = Some (?A, ?f)"
    by (rule discretise_poisson_entries[OF assms(1,2)])
  have kn: "nat k < nat (N * N)" "int (nat k) = k"
    using assms by (simp_all add: power2_eq_square nat_less_iff)
  have k: "k div N * N + k mod N = k" by simp
  have "row_of ?A k = filter (\<lambda>t. fst t = int (nat k)) ?E"
    unfolding kn(2) by (simp add: row_of_def triplets_def zip_triplets)
  also have "\<dots> = cell_entries N (k div N) (k mod N)"
    unfolding filter_row_entries using kn by simp
  finally have row: "row_of ?A k = cell_entries N (k div N) (k mod N)" .
  have rhs: "?f ! nat k = rhs_value N (nat k)"
    using kn by simp
  have kN: "(k div N + 1) * N + k mod N = k + N" "(k div N - 1) * N + k mod N = k - N"
    using k by (simp_all add: algebra_simps)
  have "let i = k mod N; j = k div N in
      if i = 0 \<or> i = N - 1 \<or> j = 0 \<or> j = N - 1
      then row_of ?A k = [(k, k, 1)] \<and> ?f ! nat k = 0
      else row_of ?A k =
             [(k, k, of_int (4 * (N - 1)\<^sup>2)),
              (k, k + 1, of_int (- ((N - 1)\<^sup>2))),
              (k, k - 1, of_int (- ((N - 1)\<^sup>2))),
              (k, k + N, of_int (- ((N - 1)\<^sup>2))),
              (k, k - N, of_int (- ((N - 1)\<^sup>2)))]
           \<and> ?f ! nat k = 1"
    unfolding row rhs using assms(3)
    by (simp add: cell_entries_def rhs_value_def Let_def k kN
        del: of_int_add of_int_diff of_int_mult of_int_minus)
  with run show ?thesis by blast
qed

theorem discretise_poisson_rows_witness:
  "(2::int) \<le> 3 \<and> (3::int) \<le> 4096 \<and> (0::int) \<le> 4 \<and> (4::int) < 3\<^sup>2 \<and>
   (\<exists>A f. discretise_poisson zero_mem 3 = Some (A, f) \<and>
      row_of A 4 = [(4, 4, 16), (4, 5, - 4), (4, 3, - 4), (4, 7, - 4), (4, 1, - 4)] \<and> f ! 4 = 1)"
  using discretise_poisson_rows[of 3 4 zero_mem] by (simp add: Let_def)

text \<open>
  C4 as stated asks for the centre coefficient \<open>4 (N - 1)\<^sup>2 + \<omega>\<^sup>2\<close> for every \<open>\<omega>\<close>. At
  \<open>N = 3\<close> and \<open>\<omega> = 1\<close> that is 17 at the one interior point \<open>k = 4\<close>; the builder stores 16.
\<close>

theorem discretise_poisson_centre_counterexample:
  "entry (fst (the (discretise_poisson zero_mem 3))) 4 4 = 16 \<and>
   entry (fst (the (discretise_poisson zero_mem 3))) 4 4 \<noteq> 4 * (3 - 1)\<^sup>2 + 1\<^sup>2"
proof -
  have A: "discretise_poisson zero_mem 3 =
     Some (COO (map (snd \<circ> snd) (entries_upto 3 (nat (3 * 3))))
               (map fst (entries_upto 3 (nat (3 * 3))))
               (map (fst \<circ> snd) (entries_upto 3 (nat (3 * 3))))
               (3\<^sup>2, 3\<^sup>2),
           map (rhs_value 3) [0..<nat (3 * 3)])"
    by (rule discretise_poisson_entries) simp_all
  show ?thesis unfolding A by code_simp
qed

text \<open>
  C5, as the code has it. The builder does not check its argument. For \<open>N < 2\<close> it allocates
  \<open>5 N\<^sup>2 - 16 N + 16\<close> slots, runs its loops (no pass for \<open>N \<le> 0\<close>, the one boundary point for
  \<open>N = 1\<close>) and hands the arrays, all but at most one slot of each as the allocator left
  them, to the constructor of the sparse matrix together with the shape \<open>(N\<^sup>2, N\<^sup>2)\<close>. The
  only error is the constructor's: the builder fails, with no result, exactly when one of
  the indices it hands over lies outside \<open>[0, N\<^sup>2)\<close> once cast to an integer. For \<open>N = 0\<close> that
  is always so, as the shape is \<open>(0, 0)\<close> and there are 16 slots. For \<open>N = 1\<close> and for
  \<open>N < 0\<close> it depends on what the allocator left in the slots; when all of it casts into
  \<open>[0, N\<^sup>2)\<close> the builder returns a matrix and a right-hand side.
\<close>

theorem discretise_poisson_small:
  assumes "N < 2"
  shows "discretise_poisson mem N =
     (let n = 5 * N\<^sup>2 - 16 * N + 16;
          data = (if N = 1 then 1 # tl (np_empty mem ''data'' n) else np_empty mem ''data'' n);
          row_ind = (if N = 1 then 0 # tl (np_empty mem ''row_ind'' n) else np_empty mem ''row_ind'' n);
          col_ind = (if N = 1 then 0 # tl (np_empty mem ''col_ind'' n) else np_empty mem ''col_ind'' n);
          f = (if N = 1 then [0] else np_empty mem ''f'' (N * N))
      in if list_all (\<lambda>x. 0 \<le> index_cast x \<and> index_cast x < N\<^sup>2) (row_ind @ col_ind)
         then Some (COO data (map index_cast row_ind) (map index_cast col_ind) (N\<^sup>2, N\<^sup>2), f)
         else None)
     \<and> (N = 0 \<longrightarrow> discretise_poisson mem N = None)"
proof (cases "N = 1")
  case True
  show ?thesis
    unfolding True discretise_poisson_one
    by (auto simp: coo_matrix_init_def Let_def length_np_empty list_all_iff)
next
  case False
  then have N: "N \<le> 0" using assms by simp
  have z: "discretise_poisson mem 0 = None"
    unfolding discretise_poisson_nonpositive[of 0 mem, simplified]
    by (simp add: coo_matrix_init_def np_empty_def upt_conv_Cons)
  have "discretise_poisson mem N =
     (if list_all (\<lambda>x. 0 \<le> index_cast x \<and> index_cast x < N\<^sup>2)
           (np_empty mem ''row_ind'' (5 * N\<^sup>2 - 16 * N + 16) @ np_empty mem ''col_ind'' (5 * N\<^sup>2 - 16 * N + 16))
      then Some (COO (np_empty mem ''data'' (5 * N\<^sup>2 - 16 * N + 16))
                   (map index_cast (np_empty mem ''row_ind'' (5 * N\<^sup>2 - 16 * N + 16)))
                   (map index_cast (np_empty mem ''col_ind'' (5 * N\<^sup>2 - 16 * N + 16))) (N\<^sup>2, N\<^sup>2),
                 np_empty mem ''f'' (N * N))
      else None)"
    unfolding discretise_poisson_nonpositive[OF N]
    by (auto simp: coo_matrix_init_def Let_def length_np_empty list_all_iff)
  then show ?thesis
    using False z by (simp add: Let_def)
qed

theorem discretise_poisson_small_witness:
  "(0::int) < 2 \<and> discretise_poisson zero_mem 0 = None"
proof -
  have "(0::int) < 2" by simp
  from discretise_poisson_small[OF this, of zero_mem]
  have "(0::int) = 0 \<longrightarrow> discretise_poisson zero_mem 0 = None" by (rule conjunct2)
  then show ?thesis by simp
qed

text \<open>
  C5 as stated asks for an error and no result when \<open>N < 2\<close>. At \<open>N = 1\<close>, with memory
  that happens to hold zeros, the builder returns five triplets (one written, four left as
  they were, all at the position \<open>(0, 0)\<close>) for a matrix of shape \<open>(1, 1)\<close>, and \<open>f = [0]\<close>.
\<close>

theorem discretise_poisson_no_check_counterexample:
  "discretise_poisson zero_mem 1 =
     Some (COO [1, 0, 0, 0, 0] [0, 0, 0, 0, 0] [0, 0, 0, 0, 0] (1, 1), [0])"
  unfolding discretise_poisson_one np_empty_zero_mem
  by (simp add: coo_matrix_init_def Let_def numeral_eq_Suc index_cast_def)

section \<open>Claims about the kernel without shared memory\<close>

text \<open>
  C2, at the grid size 4097. Take the vector \<open>u\<close> of length \<open>4097\<^sup>2 = 16785409\<close> that is 1 at
  the interior grid point \<open>k = 16777217\<close> (row 4095, column 2) and 0 elsewhere. The kernel
  without shared memory, launched as \<^verbatim>\<open>eval_gpu\<close> launches it, puts
  \<open>4 (N - 1)\<^sup>2 = 67108864\<close> at \<open>k\<close>, as the stencil asks. The builder returns a matrix, but it
  keeps the row indices in an array of \<^verbatim>\<open>float32\<close>, which cannot hold the odd integer \<open>k\<close>:
  no triplet of the matrix has the row \<open>k\<close>, and the product of the matrix with \<open>u\<close> is 0
  there.
\<close>

theorem eval_gpu_differs_from_sparse_operator_4097:
  "\<exists>A f y z. discretise_poisson mem 4097 = Some (A, f)
     \<and> matvec A ((replicate 16785409 0)[16777217 := 1]) = Some y
     \<and> eval_gpu mem' 4097 ((replicate 16785409 0)[16777217 := 1]) = Some z
     \<and> row_of A 16777217 = []
     \<and> y ! 16777217 = 0 \<and> z ! 16777217 = 67108864"
proof -
  let ?u = "(replicate 16785409 0)[16777217 := 1] :: real list"
  let ?S = "map stored (entries_upto 4097 (nat (4097 * 4097)))"
  let ?A = "COO (map (snd \<circ> snd) ?S) (map (index_cast \<circ> fst) ?S)
              (map (index_cast \<circ> fst \<circ> snd) ?S) (4097\<^sup>2, 4097\<^sup>2)"
  let ?y = "map (\<lambda>k. sum_list (map (\<lambda>t. snd (snd t) * ?u ! nat (fst (snd t))) (row_of ?A (int k))))
              [0..<nat (fst (coo_shape ?A))]"
  let ?z = "map (\<lambda>k. stencil_value 4097 ?u (int k)) [0..<nat (4097 * 4097)]"
  have A: "discretise_poisson mem 4097 = Some (?A, map (rhs_value 4097) [0..<nat (4097 * 4097)])"
    by (rule discretise_poisson_4097)
  have row: "row_of ?A 16777217 = []"
    by (rule empty_row_4097)
  have y: "matvec ?A ?u = Some ?y"
    using valid_4097 by (simp add: matvec_def)
  have "?y ! 16777217 = sum_list (map (\<lambda>t. snd (snd t) * ?u ! nat (fst (snd t))) (row_of ?A (int 16777217)))"
    by (rule nth_map_upt[of 16777217 _ 0, simplified]) simp
  then have y0: "?y ! 16777217 = 0"
    using row by simp
  have "eval_gpu mem' 4097 ?u
      = Some (map (\<lambda>k. stencil_value 4097 (astype_float32 ?u) (int k)) [0..<nat (4097 * 4097)])"
    by (rule eval_gpu_stencil) simp_all
  then have z: "eval_gpu mem' 4097 ?u = Some ?z"
    unfolding unit_vector_float32 .
  have "?z ! 16777217 = stencil_value 4097 ?u (int 16777217)"
    by (rule nth_map_upt[of 16777217 _ 0, simplified]) simp
  then have z0: "?z ! 16777217 = 67108864"
    using stencil_value_4097 by simp
  show ?thesis
    using A y z row y0 z0 by blast
qed

text \<open>
  C6, as the code has it. \<^verbatim>\<open>eval_gpu\<close> casts its input to single precision before the kernel
  copies a boundary value. For every \<open>N \<ge> 2\<close>, every full-grid vector \<open>u\<close> of length \<open>N\<^sup>2\<close> and
  every boundary point \<open>(i, j)\<close> of the grid where \<open>u\<close> is within the range of single
  precision, the output at \<open>k = j N + i\<close> is \<open>u[k]\<close> rounded to single precision: it is \<open>u[k]\<close>
  itself exactly when \<open>u[k]\<close> is a single-precision number. No arithmetic is applied to it.
\<close>

theorem eval_gpu_boundary_rounded:
  assumes "2 \<le> N" "int (length u) = N * N"
    and "0 \<le> i" "i < N" "0 \<le> j" "j < N"
    and "i = 0 \<or> i = N - 1 \<or> j = 0 \<or> j = N - 1"
    and "float32_finite (u ! nat (j * N + i))"
  shows "\<exists>y. eval_gpu mem N u = Some y
     \<and> y ! nat (j * N + i) = float32 (u ! nat (j * N + i))
     \<and> (y ! nat (j * N + i) = u ! nat (j * N + i)
          \<longleftrightarrow> float32 (u ! nat (j * N + i)) = u ! nat (j * N + i))"
proof -
  let ?k = "j * N + i"
  let ?u = "astype_float32 u"
  have k: "0 \<le> ?k" "?k < N * N" using flat_bounds[OF assms(3-6)] by auto
  have dm: "?k div N = j" "?k mod N = i" using flat_div_mod[OF assms(3,4)] by auto
  have "stencil_value N ?u ?k = ?u ! nat ?k"
    unfolding stencil_value_def Let_def dm using assms(7) by simp
  also have "\<dots> = float32 (u ! nat ?k)"
    using k assms(2) by (simp add: astype_float32_def nat_less_iff)
  finally have v: "stencil_value N ?u ?k = float32 (u ! nat ?k)" .
  have "map (\<lambda>k. stencil_value N ?u (int k)) [0..<nat (N * N)] ! nat ?k = stencil_value N ?u ?k"
    using k by simp
  then show ?thesis
    unfolding eval_gpu_stencil[OF assms(1,2)] using v by simp
qed

theorem eval_gpu_boundary_rounded_witness:
  "(2::int) \<le> 3 \<and> int (length [1, 2, 3, 4, 5, 16777219, 7, 8, 9 :: real]) = 3 * 3
   \<and> float32_finite 16777219 \<and>
   (\<exists>y. eval_gpu zero_mem 3 [1, 2, 3, 4, 5, 16777219, 7, 8, 9] = Some y
      \<and> y ! 5 = float32 16777219)"
  using eval_gpu_boundary_rounded[of 3 "[1, 2, 3, 4, 5, 16777219, 7, 8, 9]" 2 1 zero_mem]
  by (simp add: float32_finite_def) blast

text \<open>
  C6 as stated asks for \<open>u[k]\<close> itself, for any input. At \<open>N = 2\<close> every point is on the
  boundary; for \<open>u = [16777217, 1, 2, 3]\<close> the output is \<open>[16777216, 1, 2, 3]\<close>, because
  16777217 is no single-precision number.
\<close>

theorem eval_gpu_boundary_counterexample:
  "eval_gpu zero_mem 2 [16777217, 1, 2, 3] = Some [16777216, 1, 2, 3]"
proof -
  have c: "astype_float32 [16777217, 1, 2, 3] = [16777216, 1, 2, 3]"
    using float32_of_int[of 2] float32_of_int[of 3]
    by (simp add: astype_float32_def float32_16777217)
  have "eval_gpu zero_mem 2 [16777217, 1, 2, 3]
      = Some (map (\<lambda>k. stencil_value 2 (astype_float32 [16777217, 1, 2, 3]) (int k)) [0..<nat (2 * 2)])"
    by (rule eval_gpu_stencil) simp_all
  also have "\<dots> = Some [16777216, 1, 2, 3]"
    unfolding c by (simp add: stencil_value_def Let_def upt_conv_Cons)
  finally show ?thesis .
qed

section \<open>Claims about the kernel with shared memory\<close>






text \<open>
  C8. Take a block of the launch and a thread \<open>(i, j)\<close> of it inside the interior grid, at the
  grid position \<open>(p, q) = (32 bi + i, 32 bj + j)\<close>, and let the writes of the block's loading
  phase happen in any order whatever (\<open>ws\<close> is any sequence made of exactly these writes).
  At the barrier, if \<open>p = 0\<close> the cell \<open>[i, j + 1]\<close> holds 0, if \<open>q = 0\<close> the cell \<open>[i + 1, j]\<close>
  holds 0, if \<open>p = (N - 2) - 1\<close> the cell \<open>[i + 2, j + 1]\<close> holds 0, and if \<open>q = (N - 2) - 1\<close>
  the cell \<open>[i + 1, j + 2]\<close> holds 0. No order can let a halo load win over the zero,
  because every write of the block to such a cell is a zero.
\<close>

theorem halo_zero_at_barrier:
  assumes "0 \<le> bi" "0 \<le> bj" "int (length u) = (N - 2) * (N - 2)"
    and "set ws = set (block_loading N (32, 32) (bi, bj))"
    and "0 \<le> i" "i < 32" "0 \<le> j" "j < 32"
    and "bi * 32 + i < N - 2" "bj * 32 + j < N - 2"
  shows "\<exists>local_u. load_phase u ws sm = Some local_u
     \<and> (bi * 32 + i = 0 \<longrightarrow>
          local_u (cell i (j + 1)) = 0 \<and> (\<forall>s. (cell i (j + 1), s) \<in> set ws \<longrightarrow> s = Float32_zero))
     \<and> (bj * 32 + j = 0 \<longrightarrow>
          local_u (cell (i + 1) j) = 0 \<and> (\<forall>s. (cell (i + 1) j, s) \<in> set ws \<longrightarrow> s = Float32_zero))
     \<and> (bi * 32 + i = (N - 2) - 1 \<longrightarrow>
          local_u (cell (i + 2) (j + 1)) = 0
          \<and> (\<forall>s. (cell (i + 2) (j + 1), s) \<in> set ws \<longrightarrow> s = Float32_zero))
     \<and> (bj * 32 + j = (N - 2) - 1 \<longrightarrow>
          local_u (cell (i + 1) (j + 2)) = 0
          \<and> (\<forall>s. (cell (i + 1) (j + 2), s) \<in> set ws \<longrightarrow> s = Float32_zero))"
proof -
  note b = assms(1,2) and len = assms(3) and ws = assms(4) and t = assms(5-8) and a = assms(9,10)
  obtain local_u where run: "load_phase u ws sm = Some local_u"
    using load_phase_runs[OF b len ws] by blast
  note c = loaded_cells[OF b len ws run t a]
  have only: "\<exists>i' j'. same_block (i, j) (bi * 32 + i, bj * 32 + j) (i', j') (bi * 32 + i', bj * 32 + j')
      \<and> (c, s) \<in> set (loading N (i', j') (bi * 32 + i', bj * 32 + j'))"
    if "(c, s) \<in> set ws" for c s
  proof -
    have "(c, s) \<in> set (block_loading N (32, 32) (bi, bj))" using that ws by simp
    then obtain i' j' where t': "0 \<le> i'" "i' < 32" "0 \<le> j'" "j' < 32"
      and w: "(c, s) \<in> set (loading N (i', j') (bi * 32 + i', bj * 32 + j'))"
      unfolding in_block_loading by blast
    show ?thesis using same_block_threads[OF b t t'] w by blast
  qed
  have "local_u (cell i (j + 1)) = 0 \<and> (\<forall>s. (cell i (j + 1), s) \<in> set ws \<longrightarrow> s = Float32_zero)"
    if "bi * 32 + i = 0"
    using c(2) that only edge_cells_only_zeroed(1)[OF _ a] by (metis (full_types))
  moreover have "local_u (cell (i + 1) j) = 0 \<and> (\<forall>s. (cell (i + 1) j, s) \<in> set ws \<longrightarrow> s = Float32_zero)"
    if "bj * 32 + j = 0"
    using c(4) that only edge_cells_only_zeroed(2)[OF _ a] by (metis (full_types))
  moreover have "local_u (cell (i + 2) (j + 1)) = 0
      \<and> (\<forall>s. (cell (i + 2) (j + 1), s) \<in> set ws \<longrightarrow> s = Float32_zero)"
    if "bi * 32 + i = (N - 2) - 1"
    using c(3) that only edge_cells_only_zeroed(3)[OF _ a] by (metis (full_types))
  moreover have "local_u (cell (i + 1) (j + 2)) = 0
      \<and> (\<forall>s. (cell (i + 1) (j + 2), s) \<in> set ws \<longrightarrow> s = Float32_zero)"
    if "bj * 32 + j = (N - 2) - 1"
    using c(5) that only edge_cells_only_zeroed(4)[OF _ a] by (metis (full_types))
  ultimately show ?thesis using run by blast
qed

theorem halo_zero_at_barrier_witness:
  "(0::int) \<le> 0 \<and> int (length [5::real]) = (3 - 2) * (3 - 2)
   \<and> set (rev (block_loading 3 (32, 32) (0, 0))) = set (block_loading 3 (32, 32) (0, 0))
   \<and> (0::int) < 32 \<and> (0::int) * 32 + 0 < 3 - 2
   \<and> (\<exists>local_u. load_phase [5] (rev (block_loading 3 (32, 32) (0, 0))) (\<lambda>c. 7) = Some local_u
        \<and> local_u (cell 0 1) = 0 \<and> local_u (cell 1 0) = 0
        \<and> local_u (cell 2 1) = 0 \<and> local_u (cell 1 2) = 0)"
proof -
  have "\<exists>local_u. load_phase [5] (rev (block_loading 3 (32, 32) (0, 0))) (\<lambda>c. 7) = Some local_u
        \<and> local_u (cell 0 1) = 0 \<and> local_u (cell 1 0) = 0
        \<and> local_u (cell 2 1) = 0 \<and> local_u (cell 1 2) = 0"
    using halo_zero_at_barrier[of 0 0 "[5]" 3 "rev (block_loading 3 (32, 32) (0, 0))" 0 0 "\<lambda>c. 7"]
    by simp (elim exE conjE, intro exI conjI, assumption+)
  then show ?thesis by simp
qed

text \<open>
  C9. For every \<open>N \<ge> 2\<close>: at an interior point \<open>(i, j)\<close> of the full grid the five indices the
  kernel without shared memory reads lie in \<open>[0, N\<^sup>2)\<close>, and with arrays of length \<open>N\<^sup>2\<close> no
  thread of that kernel reads or writes outside its arrays. Every read of \<^verbatim>\<open>u_tilda\<close> in the
  loading phase of the kernel with shared memory, by a thread at a grid position
  \<open>(p, q)\<close>, lies in \<open>[0, (N - 2)\<^sup>2)\<close>, and with an input of length \<open>(N - 2)\<^sup>2\<close> the loading phase
  of a block reads nothing outside it.
\<close>

theorem kernel_accesses_in_range:
  assumes "2 \<le> N"
  shows "(0 < i \<and> i < N - 1 \<and> 0 < j \<and> j < N - 1 \<longrightarrow>
            list_all (\<lambda>k. 0 \<le> k \<and> k < N\<^sup>2) (stencil_indices N i j))
     \<and> (0 \<le> i \<and> 0 \<le> j \<and> int (length vec_in) = N\<^sup>2 \<and> int (length vec_out) = N\<^sup>2 \<longrightarrow>
            discretise_poisson_gpu N vec_in (i, j) vec_out \<noteq> None)
     \<and> (0 \<le> p \<and> 0 \<le> q \<and> (c, From_global k) \<in> set (loading N (ti, tj) (p, q)) \<longrightarrow>
            0 \<le> k \<and> k < (N - 2)\<^sup>2)
     \<and> (0 \<le> bi \<and> 0 \<le> bj \<and> int (length u) = (N - 2)\<^sup>2 \<longrightarrow>
            load_phase u (block_loading N (32, 32) (bi, bj)) sm \<noteq> None)"
proof (intro conjI impI)
  assume ij: "0 < i \<and> i < N - 1 \<and> 0 < j \<and> j < N - 1"
  then have i: "0 \<le> i" "i < N" and j: "0 \<le> j" "j < N" by auto
  have k: "0 \<le> j * N + i" "j * N + i < N * N" using flat_bounds[OF i j] by auto
  have jN: "0 \<le> j * N" using j assms by simp
  have up: "0 \<le> (j + 1) * N + i" "(j + 1) * N + i < N * N"
    using flat_bounds[OF i, of "j + 1"] ij by auto
  have down: "0 \<le> (j - 1) * N + i" "(j - 1) * N + i < N * N"
    using flat_bounds[OF i, of "j - 1"] ij by auto
  have left: "0 \<le> j * N + i - 1" "j * N + i - 1 < N * N"
    using k ij jN by linarith+
  have "j * N + (i + 1) < N * N"
    by (rule flat_bounds(2)) (use ij in auto)
  then have right: "0 \<le> j * N + i + 1" "j * N + i + 1 < N * N"
    using k by auto
  show "list_all (\<lambda>k. 0 \<le> k \<and> k < N\<^sup>2) (stencil_indices N i j)"
    using k up down left right by (simp add: stencil_indices_def power2_eq_square)
next
  assume "0 \<le> i \<and> 0 \<le> j \<and> int (length vec_in) = N\<^sup>2 \<and> int (length vec_out) = N\<^sup>2"
  then have "0 \<le> i" "0 \<le> j" "int (length vec_in) = N * N" "int (length vec_out) = N * N"
    by (simp_all add: power2_eq_square)
  from naive_thread[OF assms this(3,4,1,2)]
  show "discretise_poisson_gpu N vec_in (i, j) vec_out \<noteq> None" by auto
next
  assume "0 \<le> p \<and> 0 \<le> q \<and> (c, From_global k) \<in> set (loading N (ti, tj) (p, q))"
  then have "0 \<le> k \<and> k < (N - 2) * (N - 2)"
    using loading_in_range[of p q c k N ti tj] by simp
  then show "0 \<le> k" "k < (N - 2)\<^sup>2" by (simp_all add: power2_eq_square)
next
  assume "0 \<le> bi \<and> 0 \<le> bj \<and> int (length u) = (N - 2)\<^sup>2"
  then have "0 \<le> bi" "0 \<le> bj" "int (length u) = (N - 2) * (N - 2)"
    by (simp_all add: power2_eq_square)
  from load_phase_runs[OF this refl, of sm]
  show "load_phase u (block_loading N (32, 32) (bi, bj)) sm \<noteq> None" by auto
qed

theorem kernel_accesses_in_range_witness:
  "(2::int) \<le> 4
   \<and> list_all (\<lambda>k. 0 \<le> k \<and> k < 4\<^sup>2) (stencil_indices 4 1 1)
   \<and> int (length (replicate 16 (1::real))) = 4\<^sup>2
   \<and> discretise_poisson_gpu 4 (replicate 16 1) (1, 1) (replicate 16 0) \<noteq> None
   \<and> (cell 1 1, From_global 0) \<in> set (loading 4 (0, 0) (0, 0))
   \<and> (0::int) \<le> 0 \<and> (0::int) < (4 - 2)\<^sup>2
   \<and> int (length [1, 2, 3, 4 :: real]) = (4 - 2)\<^sup>2
   \<and> load_phase [1, 2, 3, 4] (block_loading 4 (32, 32) (0, 0)) (\<lambda>c. 7) \<noteq> None"
  using kernel_accesses_in_range[of 4 1 1 "replicate 16 1" "replicate 16 0" 0 0 "cell 1 1" 0 0 0
      0 0 "[1, 2, 3, 4]" "\<lambda>c. 7"]
  by (simp add: in_loading)

text \<open>
  C10. After the barrier a thread \<open>(i, j)\<close> reads the cells \<open>[i + 2, j + 1]\<close>, \<open>[i, j + 1]\<close>,
  \<open>[i + 1, j]\<close>, \<open>[i + 1, j + 2]\<close> and \<open>[i + 1, j + 1]\<close> of \<^verbatim>\<open>local_u\<close> and no other: what it writes
  is the same for two shared arrays that agree on these five. None of them is a corner of
  the array, and no write of the loading phase goes to a corner. For \<open>N \<ge> 2\<close> and an input
  of length \<open>(N - 2)\<^sup>2\<close>, two runs that start with shared arrays differing only in the
  corners return the same output.
\<close>

theorem corners_never_read:
  assumes "2 \<le> N" "int (length u) = (N - 2) * (N - 2)"
    and "\<forall>b c. c \<notin> set halo_corners \<longrightarrow> sh b c = sh' b c"
  shows "eval_gpu_2 sh mem N omega u = eval_gpu_2 sh' mem N omega u
     \<and> (\<forall>t\<in>set (block_threads (32, 32)).
           set (stencil_cells t) \<inter> set halo_corners = {}
           \<and> (\<forall>pq c s. (c, s) \<in> set (loading N t pq) \<longrightarrow> c \<notin> set halo_corners)
           \<and> (\<forall>sm sm' pq f. (\<forall>c\<in>set (stencil_cells t). sm c = sm' c) \<longrightarrow>
                  compute_phase N omega sm t pq f = compute_phase N omega sm' t pq f))"
proof (intro conjI ballI allI impI)
  show "eval_gpu_2 sh mem N omega u = eval_gpu_2 sh' mem N omega u"
    unfolding eval_gpu_2_tiled_value[OF assms(1,2)] ..
next
  fix t assume tt: "t \<in> set (block_threads (32, 32))"
  obtain i j where ij: "t = (i, j)" by (cases t)
  have t: "t = (i, j)" "0 \<le> i" "i < 32" "0 \<le> j" "j < 32"
    using tt by (simp_all add: ij set_block_threads)
  show "set (stencil_cells t) \<inter> set halo_corners = {}"
    unfolding t(1) by (rule corners_not_read[OF t(2-5)])
  show "c \<notin> set halo_corners" if "(c, s) \<in> set (loading N t pq)" for pq c s
    using that corners_not_written[OF t(2-5), of c s N "fst pq" "snd pq"] by (simp add: t(1))
  show "compute_phase N omega sm t pq f = compute_phase N omega sm' t pq f"
    if "\<forall>c\<in>set (stencil_cells t). sm c = sm' c" for sm sm' pq f
    using that by (rule compute_phase_reads)
qed

theorem corners_never_read_witness:
  "(2::int) \<le> 5 \<and> int (length [1, 2, 3, 4, 5, 6, 7, 8, 9 :: real]) = (5 - 2) * (5 - 2)
   \<and> eval_gpu_2 (\<lambda>b c. if c \<in> set halo_corners then 1 else 0) zero_mem 5 2 [1, 2, 3, 4, 5, 6, 7, 8, 9]
       = eval_gpu_2 (\<lambda>b c. if c \<in> set halo_corners then 2 else 0) zero_mem 5 2 [1, 2, 3, 4, 5, 6, 7, 8, 9]"
  using corners_never_read[of 5 "[1, 2, 3, 4, 5, 6, 7, 8, 9]"
      "\<lambda>b c. if c \<in> set halo_corners then 1 else 0"
      "\<lambda>b c. if c \<in> set halo_corners then 2 else 0" zero_mem 2]
  by simp

end
